theory Spec2Isabelle
  imports Complex_Main "HOL-Library.Product_Lexorder" "HOL-Library.AList"
begin

section \<open>JavaScript numbers\<close>

text \<open>
  The scoring fields of a concept are JavaScript numbers. The model keeps the three
  special values of the number type, since the scoring code divides by quantities that
  can be zero, and idealises every other value as an exact rational: rounding is not
  modelled. Every denominator of the source is either a length, a count or a running
  maximum that starts at \<open>0\<close>, so a zero denominator is always \<open>+0\<close> and the sign of
  zero is not modelled either.
\<close>

datatype jsnum = Finite rat | PosInf | NegInf | NaN

fun jneg :: "jsnum \<Rightarrow> jsnum" where
  "jneg (Finite a) = Finite (- a)"
| "jneg PosInf = NegInf"
| "jneg NegInf = PosInf"
| "jneg NaN = NaN"

fun jadd :: "jsnum \<Rightarrow> jsnum \<Rightarrow> jsnum" where
  "jadd NaN _ = NaN"
| "jadd _ NaN = NaN"
| "jadd (Finite a) (Finite b) = Finite (a + b)"
| "jadd PosInf NegInf = NaN"
| "jadd NegInf PosInf = NaN"
| "jadd PosInf _ = PosInf"
| "jadd NegInf _ = NegInf"
| "jadd (Finite a) PosInf = PosInf"
| "jadd (Finite a) NegInf = NegInf"

definition jsub :: "jsnum \<Rightarrow> jsnum \<Rightarrow> jsnum" where
  "jsub a b = jadd a (jneg b)"

fun jsign :: "jsnum \<Rightarrow> int" where
  "jsign (Finite a) = (if a < 0 then - 1 else if a = 0 then 0 else 1)"
| "jsign PosInf = 1"
| "jsign NegInf = - 1"
| "jsign NaN = 0"

fun jmul :: "jsnum \<Rightarrow> jsnum \<Rightarrow> jsnum" where
  "jmul NaN _ = NaN"
| "jmul _ NaN = NaN"
| "jmul (Finite a) (Finite b) = Finite (a * b)"
| "jmul a b =
     (if jsign a * jsign b = 0 then NaN
      else if jsign a * jsign b > 0 then PosInf else NegInf)"

fun jdiv :: "jsnum \<Rightarrow> jsnum \<Rightarrow> jsnum" where
  "jdiv NaN _ = NaN"
| "jdiv _ NaN = NaN"
| "jdiv (Finite a) (Finite b) =
     (if b = 0 then (if a = 0 then NaN else if a > 0 then PosInf else NegInf)
      else Finite (a / b))"
| "jdiv (Finite a) _ = Finite 0"
| "jdiv a (Finite b) =
     (if jsign a * (if b < 0 then - 1 else 1) > 0 then PosInf else NegInf)"
| "jdiv _ _ = NaN"

fun jlt :: "jsnum \<Rightarrow> jsnum \<Rightarrow> bool" where
  "jlt NaN _ = False"
| "jlt _ NaN = False"
| "jlt (Finite a) (Finite b) = (a < b)"
| "jlt PosInf _ = False"
| "jlt _ PosInf = True"
| "jlt _ NegInf = False"
| "jlt NegInf _ = True"

definition jgt :: "jsnum \<Rightarrow> jsnum \<Rightarrow> bool" where
  "jgt a b = jlt b a"

definition jge :: "jsnum \<Rightarrow> jsnum \<Rightarrow> bool" where
  "jge a b = (a \<noteq> NaN \<and> b \<noteq> NaN \<and> \<not> jlt a b)"

text \<open>\<open>a <= b\<close>\<close>

definition jle :: "jsnum \<Rightarrow> jsnum \<Rightarrow> bool" where
  "jle a b = jge b a"

fun jabs :: "jsnum \<Rightarrow> jsnum" where
  "jabs (Finite a) = Finite \<bar>a\<bar>"
| "jabs PosInf = PosInf"
| "jabs NegInf = PosInf"
| "jabs NaN = NaN"

definition of_count :: "nat \<Rightarrow> jsnum" where
  "of_count n = Finite (of_nat n)"

section \<open>Short names and name simplicity\<close>

fun lastIndexOf :: "char \<Rightarrow> string \<Rightarrow> nat option" where
  "lastIndexOf c [] = None"
| "lastIndexOf c (x # xs) =
     (case lastIndexOf c xs of
        Some i \<Rightarrow> Some (Suc i)
      | None \<Rightarrow> if x = c then Some 0 else None)"

definition uri2name :: "string \<Rightarrow> string" where
  "uri2name uri =
     (case lastIndexOf (CHR ''#'') uri of
        Some hashIndex \<Rightarrow>
          if Suc hashIndex \<noteq> length uri then drop (Suc hashIndex) uri
          else (case lastIndexOf (CHR ''/'') uri of
                  Some lastPartStart \<Rightarrow>
                    if Suc lastPartStart \<noteq> length uri then drop (Suc lastPartStart) uri
                    else uri
                | None \<Rightarrow> uri)
      | None \<Rightarrow>
          (case lastIndexOf (CHR ''/'') uri of
             Some lastPartStart \<Rightarrow>
               if Suc lastPartStart \<noteq> length uri then drop (Suc lastPartStart) uri
               else uri
           | None \<Rightarrow> uri))"

text \<open>The character class \<open>[A-Z_]\<close> of the regular expression.\<close>

definition isCompoundMark :: "char \<Rightarrow> bool" where
  "isCompoundMark c =
     ((65 \<le> (of_char c :: nat) \<and> (of_char c :: nat) \<le> 90) \<or> c = CHR ''_'')"

text \<open>\<open>name.length - name.replace(/[A-Z_]/g, '').length\<close>\<close>

definition numberOfCompound :: "string \<Rightarrow> nat" where
  "numberOfCompound name = length name - length (filter (\<lambda>c. \<not> isCompoundMark c) name)"

definition NC_CONSTANT :: jsnum where
  "NC_CONSTANT = Finite (3 / 10)"

text \<open>The body of the loop of \<open>calcNameSimplicityOfConcepts\<close>, for one concept id.\<close>

definition nameSimplicityOf :: "string \<Rightarrow> jsnum" where
  "nameSimplicityOf cid =
     (let name = uri2name cid;
          ns = jsub (Finite 1)
                 (jmul NC_CONSTANT (jsub (of_count (numberOfCompound name)) (Finite 1)))
      in if jlt ns (Finite 0) then Finite 0 else ns)"

section \<open>Concepts and the diagram model\<close>

text \<open>
  A \<open>ConceptModel\<close> object. Objects are compared by identity in the source
  (\<open>indexOf\<close>, \<open>!==\<close>, lodash \<open>union\<close> and \<open>difference\<close>), so the model keeps them
  in a heap, a function from references to objects; \<open>ident\<close> is the field \<open>id\<close>.
  The instance count and the property count are counts of the data source. The field
  \<open>level\<close> is \<open>undefined\<close> until the tree is updated; arithmetic and comparisons on
  \<open>undefined\<close> behave as on \<open>NaN\<close>, which stands for it here.
\<close>

type_synonym ref = nat

record concept =
  ident :: string
  children :: "ref list"
  parent :: "ref list"
  count :: nat
  propertyCount :: nat
  level :: jsnum
  aGlobalDensity :: jsnum
  globalDensity :: jsnum
  localDensity :: jsnum
  density :: jsnum
  contribution :: jsnum
  nameSimplicity :: jsnum
  basicLevel :: jsnum
  ncValue :: jsnum
  score :: jsnum
  overallScore :: jsnum
  covered :: "ref list"
  allSuperConcepts :: "ref list"
  allSubConcepts :: "ref list"
  indirectSubConcepts :: "ref list"

type_synonym heap = "ref \<Rightarrow> concept"

text \<open>The fields of \<open>DiagramModel\<close> that key concept extraction reads and writes.\<close>

record diagram =
  store :: heap
  concepts :: "ref list"
  paths :: "ref list list"
  maxAGlobalDensity :: jsnum
  keyConcepts :: "ref list"

section \<open>The lodash array functions\<close>

text \<open>\<open>uniq\<close> keeps the first occurrence of every element, as lodash does.\<close>

definition uniq :: "'a list \<Rightarrow> 'a list" where
  "uniq xs = rev (remdups (rev xs))"

definition union2 :: "'a list \<Rightarrow> 'a list \<Rightarrow> 'a list" where
  "union2 xs ys = uniq (xs @ ys)"

definition union3 :: "'a list \<Rightarrow> 'a list \<Rightarrow> 'a list \<Rightarrow> 'a list" where
  "union3 xs ys zs = uniq (xs @ ys @ zs)"

definition difference :: "'a list \<Rightarrow> 'a list \<Rightarrow> 'a list" where
  "difference xs ys = filter (\<lambda>x. x \<notin> set ys) xs"

text \<open>\<open>take(array, n)\<close>: a negative \<open>n\<close> takes nothing.\<close>

definition take_n :: "'a list \<Rightarrow> int \<Rightarrow> 'a list" where
  "take_n xs n = take (nat n) xs"

text \<open>
  \<open>sortBy(concepts, c => -c.score)\<close>: a stable sort, ascending in the key, with \<open>NaN\<close>
  keys last. The key of the order is the rank of the number and then its value.
\<close>

fun sortKey :: "jsnum \<Rightarrow> nat \<times> rat" where
  "sortKey NegInf = (0, 0)"
| "sortKey (Finite a) = (1, a)"
| "sortKey PosInf = (2, 0)"
| "sortKey NaN = (3, 0)"

definition sortBy :: "('a \<Rightarrow> jsnum) \<Rightarrow> 'a list \<Rightarrow> 'a list" where
  "sortBy f xs = sort_key (\<lambda>x. sortKey (f x)) xs"

section \<open>The greedy subset selector\<close>

definition WEIGHT_CO :: jsnum where
  "WEIGHT_CO = Finite (6 / 10)"

definition WEIGHT_CR :: jsnum where
  "WEIGHT_CR = Finite (4 / 10)"

text \<open>The inner loop of \<open>calcContributionOfConcepts\<close>: the cover of the other members.\<close>

definition coverOfOtherConcepts :: "heap \<Rightarrow> ref list \<Rightarrow> ref \<Rightarrow> ref list" where
  "coverOfOtherConcepts h cs c =
     foldl (\<lambda>cover el. if el \<noteq> c then union2 cover (covered (h el)) else cover) [] cs"

text \<open>The value \<open>difference(concept.covered, coverOfOtherConcepts).length\<close>.\<close>

definition contributionOf :: "heap \<Rightarrow> ref list \<Rightarrow> ref \<Rightarrow> jsnum" where
  "contributionOf h cs c =
     of_count (length (difference (covered (h c)) (coverOfOtherConcepts h cs c)))"

fun contributionLoop :: "ref list \<Rightarrow> ref list \<Rightarrow> heap \<times> jsnum \<Rightarrow> heap \<times> jsnum" where
  "contributionLoop cs [] (h, sumContribution) = (h, sumContribution)"
| "contributionLoop cs (c # rest) (h, sumContribution) =
     contributionLoop cs rest
       (h(c := (h c)\<lparr>contribution := contributionOf h cs c\<rparr>),
        jadd sumContribution (contributionOf h cs c))"

definition calcContributionOfConcepts :: "heap \<Rightarrow> ref list \<Rightarrow> heap \<times> jsnum" where
  "calcContributionOfConcepts h cs =
     (case contributionLoop cs cs (h, Finite 0) of
        (h', sumContribution) \<Rightarrow> (h', jdiv sumContribution (of_count (length cs))))"

definition findMaxContribution :: "heap \<Rightarrow> ref list \<Rightarrow> jsnum" where
  "findMaxContribution h cs =
     foldl (\<lambda>maxContribution c.
              if jgt (contribution (h c)) maxContribution then contribution (h c)
              else maxContribution)
       (Finite 0) cs"

definition overallScoreOf :: "jsnum \<Rightarrow> heap \<Rightarrow> ref \<Rightarrow> jsnum" where
  "overallScoreOf maxContribution h c =
     jadd (jdiv (jmul WEIGHT_CO (contribution (h c))) maxContribution)
          (jmul WEIGHT_CR (score (h c)))"

fun overallScoreLoop :: "jsnum \<Rightarrow> ref list \<Rightarrow> heap \<times> jsnum \<Rightarrow> heap \<times> jsnum" where
  "overallScoreLoop maxContribution [] (h, sumOverallScore) = (h, sumOverallScore)"
| "overallScoreLoop maxContribution (c # rest) (h, sumOverallScore) =
     overallScoreLoop maxContribution rest
       (h(c := (h c)\<lparr>overallScore := overallScoreOf maxContribution h c\<rparr>),
        jadd sumOverallScore (overallScoreOf maxContribution h c))"

definition calcOverallScoreOfConcepts :: "heap \<Rightarrow> ref list \<Rightarrow> heap \<times> jsnum" where
  "calcOverallScoreOfConcepts h cs =
     (case overallScoreLoop (findMaxContribution h cs) cs (h, Finite 0) of
        (h', sumOverallScore) \<Rightarrow> (h', jdiv sumOverallScore (of_count (length cs))))"

text \<open>
  \<open>findConceptWithWorstOverallScore\<close>: the search starts from the value \<open>2\<close> and from
  the result \<open>undefined\<close>, which is \<open>None\<close> here.
\<close>

definition findConceptWithWorstOverallScore :: "heap \<Rightarrow> ref list \<Rightarrow> ref option" where
  "findConceptWithWorstOverallScore h cs =
     snd (foldl (\<lambda>(worstOverallScore, result) c.
                   if jlt (overallScore (h c)) worstOverallScore
                   then (overallScore (h c), Some c)
                   else (worstOverallScore, result))
            (Finite 2, None) cs)"

text \<open>
  The array \<open>[worstOverallScoreConcept]\<close> handed to \<open>difference\<close>: when the search found
  nothing it holds \<open>undefined\<close>, which is no concept and removes nothing.
\<close>

fun worstAsList :: "ref option \<Rightarrow> ref list" where
  "worstAsList None = []"
| "worstAsList (Some w) = [w]"

text \<open>The state of the selection loop: the heap and the three loop variables.\<close>

record selection =
  sel_store :: heap
  bestConceptSet :: "ref list"
  avgContribution :: jsnum
  avgOverallScore :: jsnum

text \<open>One iteration of the loop over \<open>remainConcepts\<close>, for the remaining concept \<open>r\<close>.\<close>

definition newConceptSetOf :: "selection \<Rightarrow> ref \<Rightarrow> ref list" where
  "newConceptSetOf s r =
     union2 (difference (bestConceptSet s)
              (worstAsList (findConceptWithWorstOverallScore (sel_store s) (bestConceptSet s))))
       [r]"

definition swapStep :: "selection \<Rightarrow> ref \<Rightarrow> selection" where
  "swapStep s r =
     (let newConceptSet = newConceptSetOf s r in
      case calcContributionOfConcepts (sel_store s) newConceptSet of
        (h1, avgContribution1) \<Rightarrow>
          (case calcOverallScoreOfConcepts h1 newConceptSet of
             (h2, avgOverallScore1) \<Rightarrow>
               if jgt avgOverallScore1 (avgOverallScore s)
                  \<and> jge avgContribution1 (avgContribution s)
               then \<lparr>sel_store = h2, bestConceptSet = newConceptSet,
                      avgContribution = avgContribution1,
                      avgOverallScore = avgOverallScore1\<rparr>
               else s\<lparr>sel_store := h2\<rparr>))"

definition initialSelection :: "heap \<Rightarrow> ref list \<Rightarrow> selection" where
  "initialSelection h best =
     (case calcContributionOfConcepts h best of
        (h1, avgC) \<Rightarrow>
          (case calcOverallScoreOfConcepts h1 best of
             (h2, avgO) \<Rightarrow>
               \<lparr>sel_store = h2, bestConceptSet = best,
                avgContribution = avgC, avgOverallScore = avgO\<rparr>))"

text \<open>
  The \<open>else\<close> branch of \<open>extractKeyConcepts\<close>, after the three scoring passes: sort,
  take the best \<open>n\<close>, and run the swap loop over the remaining concepts.
\<close>

definition selectKeyConcepts :: "diagram \<Rightarrow> int \<Rightarrow> diagram" where
  "selectKeyConcepts d n =
     (let sorted = sortBy (\<lambda>c. jneg (score (store d c))) (concepts d);
          best = take_n sorted n;
          remainConcepts = difference sorted best;
          s = foldl swapStep (initialSelection (store d) best) remainConcepts
      in d\<lparr>store := sel_store s, concepts := sorted, keyConcepts := bestConceptSet s\<rparr>)"

text \<open>
  The two averages of a concept set, as the two scoring functions return them when they
  are called on the set one after the other.
\<close>

definition setAvgContribution :: "heap \<Rightarrow> ref list \<Rightarrow> jsnum" where
  "setAvgContribution h cs = snd (calcContributionOfConcepts h cs)"

definition setAvgOverallScore :: "heap \<Rightarrow> ref list \<Rightarrow> jsnum" where
  "setAvgOverallScore h cs =
     snd (calcOverallScoreOfConcepts (fst (calcContributionOfConcepts h cs)) cs)"

text \<open>The loop variables hold the averages of the working set.\<close>

definition consistent :: "selection \<Rightarrow> bool" where
  "consistent s =
     (avgContribution s = setAvgContribution (sel_store s) (bestConceptSet s)
      \<and> avgOverallScore s = setAvgOverallScore (sel_store s) (bestConceptSet s))"

text \<open>
  The object that \<open>getConceptModel\<close> and \<open>getConceptFromClassModel\<close> create: every
  number \<open>0\<close>, every array empty, \<open>level\<close> not yet assigned. The label is not modelled.
\<close>

definition getConceptModel :: "string \<Rightarrow> nat \<Rightarrow> concept" where
  "getConceptModel cid instances =
     \<lparr>ident = cid, children = [], parent = [], count = instances, propertyCount = 0,
      level = NaN, aGlobalDensity = Finite 0, globalDensity = Finite 0,
      localDensity = Finite 0, density = Finite 0, contribution = Finite 0,
      nameSimplicity = Finite 0, basicLevel = Finite 0, ncValue = Finite 0,
      score = Finite 0, overallScore = Finite 0, covered = [], allSuperConcepts = [],
      allSubConcepts = [], indirectSubConcepts = []\<rparr>"

section \<open>Updating the concept tree\<close>

text \<open>
  \<open>updateConceptTree\<close> runs two recursive traversals over the \<open>children\<close> arrays. The
  source has no visited set, so on a graph with a cycle below the root the recursion
  does not return; the model takes the recursion depth as fuel and \<open>None\<close> stands for
  running out of it.
\<close>

fun addSubConcept :: "nat \<Rightarrow> heap \<Rightarrow> ref \<Rightarrow> jsnum \<Rightarrow> heap option"
  and addSubConceptEach :: "nat \<Rightarrow> heap \<Rightarrow> ref \<Rightarrow> jsnum \<Rightarrow> ref list \<Rightarrow> heap option"
where
  "addSubConcept 0 h c lvl = None"
| "addSubConcept (Suc n) h c lvl =
     addSubConceptEach n
       (h(c := (h c)\<lparr>level := lvl,
                        allSubConcepts := allSubConcepts (h c) @ children (h c)\<rparr>))
       c (jadd lvl (Finite 1)) (children (h c))"
| "addSubConceptEach n h c childLevel [] = Some h"
| "addSubConceptEach n h c childLevel (child # rest) =
     (case addSubConcept n h child childLevel of
        None \<Rightarrow> None
      | Some h1 \<Rightarrow>
          addSubConceptEach n
            (h1(c := (h1 c)\<lparr>allSubConcepts := allSubConcepts (h1 c) @ allSubConcepts (h1 child),
                              indirectSubConcepts :=
                                indirectSubConcepts (h1 c) @ allSubConcepts (h1 child)\<rparr>))
            c childLevel rest)"

text \<open>The loop over \<open>concept.parent\<close> at the start of \<open>addSuperConcepts\<close>.\<close>

fun addParents :: "heap \<Rightarrow> ref \<Rightarrow> ref list \<Rightarrow> heap" where
  "addParents h c [] = h"
| "addParents h c (p # ps) =
     (let h1 = h(c := (h c)\<lparr>allSuperConcepts := allSuperConcepts (h c) @ [p]\<rparr>);
          h2 = h1(c := (h1 c)\<lparr>allSuperConcepts :=
                                  allSuperConcepts (h1 c) @ allSuperConcepts (h1 p)\<rparr>)
      in addParents h2 c ps)"

definition updateCovered :: "heap \<Rightarrow> ref \<Rightarrow> heap" where
  "updateCovered h c =
     h(c := (h c)\<lparr>covered := union3 (allSuperConcepts (h c)) (allSubConcepts (h c)) [c]\<rparr>)"

fun addSuperConcepts :: "nat \<Rightarrow> heap \<Rightarrow> ref \<Rightarrow> heap option"
  and addSuperConceptsEach :: "nat \<Rightarrow> heap \<Rightarrow> ref list \<Rightarrow> heap option"
where
  "addSuperConcepts 0 h c = None"
| "addSuperConcepts (Suc n) h c =
     addSuperConceptsEach n (updateCovered (addParents h c (parent (h c))) c) (children (h c))"
| "addSuperConceptsEach n h [] = Some h"
| "addSuperConceptsEach n h (child # rest) =
     (case addSuperConcepts n h child of
        None \<Rightarrow> None
      | Some h1 \<Rightarrow> addSuperConceptsEach n h1 rest)"

definition updateConceptTree :: "nat \<Rightarrow> heap \<Rightarrow> ref \<Rightarrow> heap option" where
  "updateConceptTree n h rootConcept =
     (case addSubConcept n h rootConcept (Finite 1) of
        None \<Rightarrow> None
      | Some h1 \<Rightarrow> addSuperConcepts n h1 rootConcept)"

section \<open>The concept list and the paths of the diagram model\<close>

text \<open>
  \<open>calcAllPaths\<close>: a concept that is already on the path is not extended. The fuel is
  the recursion depth.
\<close>

fun calcAllPaths :: "nat \<Rightarrow> heap \<Rightarrow> ref \<Rightarrow> ref list \<Rightarrow> ref list list option"
  and calcAllPathsEach :: "nat \<Rightarrow> heap \<Rightarrow> ref list \<Rightarrow> ref list \<Rightarrow> ref list list
                             \<Rightarrow> ref list list option"
where
  "calcAllPaths 0 h start path = None"
| "calcAllPaths (Suc n) h start path =
     (if start \<notin> set path then
        (let currentPath = path @ [start] in
         if children (h start) = [] then Some [currentPath]
         else calcAllPathsEach n h (children (h start)) currentPath [])
      else Some [])"
| "calcAllPathsEach n h [] currentPath result = Some result"
| "calcAllPathsEach n h (subConcept # rest) currentPath result =
     (case calcAllPaths n h subConcept currentPath of
        None \<Rightarrow> None
      | Some subResults \<Rightarrow> calcAllPathsEach n h rest currentPath (result @ subResults))"

section \<open>Scoring\<close>

definition WEIGHT_BASIC_LEVEL :: jsnum where
  "WEIGHT_BASIC_LEVEL = Finite (66 / 100)"

definition WEIGHT_NAME_SIMPLICITY :: jsnum where
  "WEIGHT_NAME_SIMPLICITY = Finite (33 / 100)"

definition WEIGHT_LOCAL_DENSITY :: jsnum where
  "WEIGHT_LOCAL_DENSITY = Finite (32 / 100)"

definition WEIGHT_GLOBAL_DENSITY :: jsnum where
  "WEIGHT_GLOBAL_DENSITY = Finite (8 / 100)"

definition WEIGHT_SUBCLASSES :: jsnum where
  "WEIGHT_SUBCLASSES = Finite (8 / 10)"

definition WEIGHT_PROPERTIES :: jsnum where
  "WEIGHT_PROPERTIES = Finite (1 / 10)"

definition WEIGHT_INSTANCES :: jsnum where
  "WEIGHT_INSTANCES = Finite (1 / 10)"

definition RATIO_DISTANCE :: jsnum where
  "RATIO_DISTANCE = Finite (1 / 10)"

definition WEIGHT_GDL :: jsnum where
  "WEIGHT_GDL = Finite (1 / 2)"

subsection \<open>The neighbourhood of a concept\<close>

text \<open>
  The two local functions of \<open>getNearestConceptsKLevel\<close>. Both recurse as long as a
  comparison of \<open>level\<close> fields allows it; the fuel is the recursion depth.
\<close>

fun addSubConceptsKLevel :: "nat \<Rightarrow> heap \<Rightarrow> jsnum \<Rightarrow> ref \<Rightarrow> jsnum \<Rightarrow> ref list option"
  and addSubConceptsKLevelEach ::
    "nat \<Rightarrow> heap \<Rightarrow> jsnum \<Rightarrow> jsnum \<Rightarrow> ref list \<Rightarrow> ref list \<Rightarrow> ref list option"
where
  "addSubConceptsKLevel 0 h initLevel c k = None"
| "addSubConceptsKLevel (Suc n) h initLevel c k =
     (if jle (jsub (jadd (level (h c)) (Finite 1)) initLevel) k
      then addSubConceptsKLevelEach n h initLevel k (children (h c)) []
      else Some [])"
| "addSubConceptsKLevelEach n h initLevel k [] result = Some result"
| "addSubConceptsKLevelEach n h initLevel k (subConcept # rest) result =
     (case addSubConceptsKLevel n h initLevel subConcept k of
        None \<Rightarrow> None
      | Some subResult \<Rightarrow>
          addSubConceptsKLevelEach n h initLevel k rest
            (union2 (result @ [subConcept]) subResult))"

fun addSuperConceptsKLevel :: "nat \<Rightarrow> heap \<Rightarrow> jsnum \<Rightarrow> ref \<Rightarrow> jsnum \<Rightarrow> ref list option"
  and addSuperConceptsKLevelEach ::
    "nat \<Rightarrow> heap \<Rightarrow> jsnum \<Rightarrow> jsnum \<Rightarrow> ref list \<Rightarrow> ref list \<Rightarrow> ref list option"
where
  "addSuperConceptsKLevel 0 h initLevel c k = None"
| "addSuperConceptsKLevel (Suc n) h initLevel c k =
     (if jlt (jsub initLevel (level (h c))) k
      then addSuperConceptsKLevelEach n h initLevel k (parent (h c)) []
      else Some [])"
| "addSuperConceptsKLevelEach n h initLevel k [] result = Some result"
| "addSuperConceptsKLevelEach n h initLevel k (superConcept # rest) result =
     (case addSuperConceptsKLevel n h initLevel superConcept k of
        None \<Rightarrow> None
      | Some superResult \<Rightarrow>
          addSuperConceptsKLevelEach n h initLevel k rest
            (union2 (result @ [superConcept]) superResult))"

definition getNearestConceptsKLevel :: "nat \<Rightarrow> heap \<Rightarrow> jsnum \<Rightarrow> ref \<Rightarrow> ref list option" where
  "getNearestConceptsKLevel n h k c =
     (case addSubConceptsKLevel n h (level (h c)) c k of
        None \<Rightarrow> None
      | Some subConceptsKLevel \<Rightarrow>
          (case addSuperConceptsKLevel n h (level (h c)) c k of
             None \<Rightarrow> None
           | Some superConceptsKLevel \<Rightarrow>
               Some (union3 [c] subConceptsKLevel superConceptsKLevel)))"

subsection \<open>Density\<close>

definition weightedGlobalDensity :: "heap \<Rightarrow> ref \<Rightarrow> ref \<Rightarrow> jsnum" where
  "weightedGlobalDensity h c nearestConcept =
     jmul (jsub (Finite 1)
             (jmul RATIO_DISTANCE (jabs (jsub (level (h c)) (level (h nearestConcept))))))
          (globalDensity (h nearestConcept))"

definition calcLocalDensity :: "nat \<Rightarrow> heap \<Rightarrow> ref \<Rightarrow> heap option" where
  "calcLocalDensity n h c =
     (case getNearestConceptsKLevel n h (Finite 2) c of
        None \<Rightarrow> None
      | Some nearestConcepts \<Rightarrow>
          (let maxWeightedGlobalDensity =
                 foldl (\<lambda>m nearestConcept.
                          if jgt (weightedGlobalDensity h c nearestConcept) m
                          then weightedGlobalDensity h c nearestConcept else m)
                   (Finite 0) nearestConcepts
           in Some (h(c := (h c)\<lparr>localDensity :=
                        jadd (jdiv (globalDensity (h c)) maxWeightedGlobalDensity)
                             (jmul WEIGHT_GDL (globalDensity (h c)))\<rparr>))))"

text \<open>The first loop of \<open>calcDensityOfConcepts\<close>, over the heap and the running maximum.\<close>

definition aGlobalDensityOf :: "concept \<Rightarrow> jsnum" where
  "aGlobalDensityOf x =
     jadd (jadd (jmul (of_count (length (children x))) WEIGHT_SUBCLASSES)
                (jmul (of_count (count x)) WEIGHT_INSTANCES))
          (jmul (of_count (propertyCount x)) WEIGHT_PROPERTIES)"

fun aGlobalDensityLoop :: "ref list \<Rightarrow> heap \<times> jsnum \<Rightarrow> heap \<times> jsnum" where
  "aGlobalDensityLoop [] (h, m) = (h, m)"
| "aGlobalDensityLoop (c # rest) (h, m) =
     aGlobalDensityLoop rest
       (h(c := (h c)\<lparr>aGlobalDensity := aGlobalDensityOf (h c)\<rparr>),
        if jgt (aGlobalDensityOf (h c)) m then aGlobalDensityOf (h c) else m)"

text \<open>The second loop: global density, local density and density of each concept.\<close>

fun densityLoop :: "nat \<Rightarrow> jsnum \<Rightarrow> ref list \<Rightarrow> heap \<Rightarrow> heap option" where
  "densityLoop n m [] h = Some h"
| "densityLoop n m (c # rest) h =
     (let h1 = h(c := (h c)\<lparr>globalDensity := jdiv (aGlobalDensity (h c)) m\<rparr>) in
      case calcLocalDensity n h1 c of
        None \<Rightarrow> None
      | Some h2 \<Rightarrow>
          densityLoop n m rest
            (h2(c := (h2 c)\<lparr>density :=
                   jadd (jmul WEIGHT_GLOBAL_DENSITY (globalDensity (h2 c)))
                        (jmul WEIGHT_LOCAL_DENSITY (localDensity (h2 c)))\<rparr>)))"

definition calcDensityOfConcepts :: "nat \<Rightarrow> diagram \<Rightarrow> diagram option" where
  "calcDensityOfConcepts n d =
     (let firstLoop = aGlobalDensityLoop (concepts d) (store d, maxAGlobalDensity d) in
      case densityLoop n (snd firstLoop) (concepts d) (fst firstLoop) of
        None \<Rightarrow> None
      | Some h2 \<Rightarrow> Some (d\<lparr>store := h2, maxAGlobalDensity := snd firstLoop\<rparr>))"

subsection \<open>Natural category value and score\<close>

definition calcNameSimplicityOfConcepts :: "diagram \<Rightarrow> diagram" where
  "calcNameSimplicityOfConcepts d =
     d\<lparr>store := foldl (\<lambda>h c. h(c := (h c)\<lparr>nameSimplicity := nameSimplicityOf (ident (h c))\<rparr>))
                   (store d) (concepts d)\<rparr>"

text \<open>
  The votes of one path: the inner \<open>for\<close> loop over the positions \<open>1 .. length - 2\<close>,
  run only when the path has at least three concepts.
\<close>

fun basicLevelVotes :: "ref list \<Rightarrow> heap \<times> jsnum \<Rightarrow> heap \<times> jsnum" where
  "basicLevelVotes [] (h, m) = (h, m)"
| "basicLevelVotes (c # rest) (h, m) =
     (let bl = jadd (basicLevel (h c)) (Finite 1) in
      basicLevelVotes rest
        (h(c := (h c)\<lparr>basicLevel := bl\<rparr>), if jgt bl m then bl else m))"

definition interior :: "'a list \<Rightarrow> 'a list" where
  "interior path = butlast (tl path)"

definition calcBasicLevelOfConcepts :: "diagram \<Rightarrow> diagram" where
  "calcBasicLevelOfConcepts d =
     (let votes = foldl (\<lambda>hm path. if 3 \<le> length path then basicLevelVotes (interior path) hm
                                   else hm)
                    (store d, Finite 0) (paths d)
      in d\<lparr>store := foldl (\<lambda>h c. h(c := (h c)\<lparr>basicLevel := jdiv (basicLevel (h c)) (snd votes)\<rparr>))
                       (fst votes) (concepts d)\<rparr>)"

definition calcNaturalCategoryValueOfConcepts :: "diagram \<Rightarrow> diagram" where
  "calcNaturalCategoryValueOfConcepts d =
     (let d1 = calcBasicLevelOfConcepts (calcNameSimplicityOfConcepts d) in
      d1\<lparr>store := foldl (\<lambda>h c. h(c := (h c)\<lparr>ncValue :=
                              jadd (jmul WEIGHT_BASIC_LEVEL (basicLevel (h c)))
                                   (jmul WEIGHT_NAME_SIMPLICITY (nameSimplicity (h c)))\<rparr>))
                     (store d1) (concepts d1)\<rparr>)"

definition calcScoreOfConcepts :: "diagram \<Rightarrow> diagram" where
  "calcScoreOfConcepts d =
     d\<lparr>store := foldl (\<lambda>h c. h(c := (h c)\<lparr>score := jadd (ncValue (h c)) (density (h c))\<rparr>))
                   (store d) (concepts d)\<rparr>"

section \<open>Key concept extraction\<close>


section \<open>Auxiliary definitions for the selector proofs\<close>

definition maxContributionOf :: "heap \<Rightarrow> ref list \<Rightarrow> jsnum" where
  "maxContributionOf h cs =
     foldl (\<lambda>m c. if jgt (contributionOf h cs c) m then contributionOf h cs c else m)
       (Finite 0) cs"

definition pureOverall :: "heap \<Rightarrow> ref list \<Rightarrow> ref \<Rightarrow> jsnum" where
  "pureOverall h cs c =
     jadd (jdiv (jmul WEIGHT_CO (contributionOf h cs c)) (maxContributionOf h cs))
          (jmul WEIGHT_CR (score (h c)))"

definition scored :: "heap \<Rightarrow> ref list \<Rightarrow> heap" where
  "scored h cs =
     (\<lambda>c. if c \<in> set cs
          then (h c)\<lparr>contribution := contributionOf h cs c, overallScore := pureOverall h cs c\<rparr>
          else h c)"



text \<open>
  A small heap for the selection loop: four scored concepts with their covered sets.
\<close>

definition scoredConcept :: "ref list \<Rightarrow> jsnum \<Rightarrow> concept" where
  "scoredConcept cov sc = (getConceptModel [] 0)\<lparr>covered := cov, score := sc\<rparr>"

definition swapHeap :: heap where
  "swapHeap =
     (\<lambda>_. getConceptModel [] 0)
       (0 := scoredConcept [0, 1, 2] (Finite 1),
        1 := scoredConcept [0, 1] (Finite (1 / 2)),
        3 := scoredConcept [3, 4] (Finite (1 / 4)))"



section \<open>The graph of a heap\<close>

text \<open>The \<open>children\<close> arrays as a relation, and the concepts reachable from a concept.\<close>

definition childRel :: "heap \<Rightarrow> (ref \<times> ref) set" where
  "childRel h = {(p, c). c \<in> set (children (h p))}"

definition reach :: "heap \<Rightarrow> ref \<Rightarrow> ref set" where
  "reach h s = (childRel h)\<^sup>* `` {s}"

text \<open>
  A heap with a concept that has two parents and with a cycle: \<open>0\<close> has the children
  \<open>1\<close> and \<open>2\<close>, both have the child \<open>3\<close>, and \<open>3\<close> has the children \<open>0\<close> and \<open>4\<close>.
\<close>

definition cyclicHeap :: heap where
  "cyclicHeap =
     (\<lambda>_. getConceptModel [] 0)
       (0 := (getConceptModel ''a'' 0)\<lparr>children := [1, 2], parent := [3]\<rparr>,
        1 := (getConceptModel ''b'' 0)\<lparr>children := [3], parent := [0]\<rparr>,
        2 := (getConceptModel ''c'' 0)\<lparr>children := [3], parent := [0]\<rparr>,
        3 := (getConceptModel ''d'' 0)\<lparr>children := [0, 4], parent := [1, 2]\<rparr>,
        4 := (getConceptModel ''e'' 0)\<lparr>parent := [3]\<rparr>)"

section \<open>Building the class tree and the concept tree\<close>

text \<open>
  The bindings of the SPARQL response are declared outside the source at hand; the model
  keeps the fields that the builders read. A literal is a text with a language tag (the
  empty tag when there is none), and an instance count is the number its literal holds.
  The dictionaries are keyed by IRIs and are kept as association lists in insertion
  order, which is the order \<open>each\<close> visits them in.
\<close>

datatype failure = TypeError | StackOverflow

type_synonym localizedString = "string \<times> string"

record classBinding =
  b_class :: string
  b_label :: "localizedString option"
  b_instcount :: "nat option"
  b_parent :: "string option"

text \<open>
  A \<open>ClassModel\<close>. Its \<open>children\<close> array only ever receives nodes of
  \<open>createdTreeNodes\<close>, and that dictionary holds one object per id, so a child is
  referred to by its id.
\<close>

record classModel =
  c_id :: string
  c_label :: "localizedString list"
  c_count :: nat
  c_children :: "string list"
  c_parent :: "string option"

type_synonym classDict = "(string \<times> classModel) list"

definition THING_URI :: string where
  "THING_URI = ''http://www.w3.org/2002/07/owl#Thing''"

definition PRIMITIVE_TYPE :: "string list" where
  "PRIMITIVE_TYPE =
     [THING_URI,
      ''http://www.w3.org/2000/01/rdf-schema#label'',
      ''http://www.w3.org/2002/07/owl#NamedIndividual'',
      ''http://www.w3.org/2002/07/owl#Class'',
      ''http://www.w3.org/2002/07/owl#DatatypeProperty'',
      ''http://www.w3.org/2002/07/owl#FunctionalProperty'',
      ''http://www.w3.org/2002/07/owl#ObjectProperty'',
      ''http://www.w3.org/2002/07/owl#TransitiveProperty'',
      ''http://www.w3.org/2002/07/owl#SymmetricProperty'',
      ''http://www.w3.org/2002/07/owl#AnnotationProperty'',
      ''http://www.w3.org/2002/07/owl#DisjointClasses'',
      ''http://www.w3.org/2002/07/owl#AllDifferent'',
      ''http://www.w3.org/2002/07/owl#Ontology'',
      ''http://www.w3.org/2002/07/owl#Ontology'']"

fun indexOfChar :: "char \<Rightarrow> string \<Rightarrow> nat option" where
  "indexOfChar c [] = None"
| "indexOfChar c (x # xs) =
     (if x = c then Some 0 else map_option Suc (indexOfChar c xs))"

definition getNameFromId :: "string \<Rightarrow> string" where
  "getNameFromId cid =
     (case indexOfChar (CHR ''#'') cid of
        Some sharpIndex \<Rightarrow> drop (Suc sharpIndex) cid
      | None \<Rightarrow>
          (case lastIndexOf (CHR ''/'') cid of
             Some i \<Rightarrow> drop (Suc i) cid
           | None \<Rightarrow> cid))"

text \<open>\<open>getClassModel\<close>: the node of a binding, and of a parent known by its id only.\<close>

definition getClassModel :: "string \<Rightarrow> localizedString option \<Rightarrow> nat option \<Rightarrow> classModel" where
  "getClassModel cid label instcount =
     \<lparr>c_id = cid,
      c_label = [case label of Some l \<Rightarrow> l | None \<Rightarrow> (getNameFromId cid, [])],
      c_count = (case instcount of Some n \<Rightarrow> n | None \<Rightarrow> 0),
      c_children = [],
      c_parent = None\<rparr>"

record classTreeState =
  tree :: "string list"
  createdTreeNodes :: classDict
  tempNodes :: classDict

text \<open>The branch of the loop for a class id that is already in \<open>createdTreeNodes\<close>.\<close>

definition mergeDuplicate :: "classModel \<Rightarrow> classBinding \<Rightarrow> classModel" where
  "mergeDuplicate node sNode =
     (let node1 =
            (case b_label sNode of
               None \<Rightarrow> node
             | Some l \<Rightarrow>
                 node\<lparr>c_label :=
                        (if length (c_label node) = 1 \<and> snd (hd (c_label node)) = []
                         then [] else c_label node) @ [l]\<rparr>)
      in case b_instcount sNode of
           None \<Rightarrow> node1
         | Some n \<Rightarrow> if c_count node1 = 0 then node1\<lparr>c_count := n\<rparr> else node1)"

text \<open>\<open>parentNode.children.push(newNode); parentNode.count += newNode.count\<close>\<close>

definition adoptChild :: "classModel \<Rightarrow> classModel \<Rightarrow> classModel" where
  "adoptChild parentNode newNode =
     parentNode\<lparr>c_children := c_children parentNode @ [c_id newNode],
                 c_count := c_count parentNode + c_count newNode\<rparr>"

definition classTreeStep :: "classTreeState \<Rightarrow> classBinding \<Rightarrow> classTreeState" where
  "classTreeStep st sNode =
     (let sNodeId = b_class sNode in
      case map_of (createdTreeNodes st) sNodeId of
        Some node \<Rightarrow>
          st\<lparr>createdTreeNodes :=
               AList.update sNodeId (mergeDuplicate node sNode) (createdTreeNodes st)\<rparr>
      | None \<Rightarrow>
          (let newNode = getClassModel sNodeId (b_label sNode) (b_instcount sNode) in
           case b_parent sNode of
             Some sParentNodeId \<Rightarrow>
               (let newNode1 = newNode\<lparr>c_parent := Some sParentNodeId\<rparr>;
                    created1 = AList.update sNodeId newNode1 (createdTreeNodes st)
                in case map_of created1 sParentNodeId of
                     None \<Rightarrow>
                       (let parentNode =
                              (case map_of (tempNodes st) sParentNodeId of
                                 None \<Rightarrow> getClassModel sParentNodeId None None
                               | Some t \<Rightarrow> t)
                        in st\<lparr>createdTreeNodes := created1,
                                tempNodes := AList.update sParentNodeId
                                               (adoptChild parentNode newNode1) (tempNodes st)\<rparr>)
                   | Some parentNode \<Rightarrow>
                       st\<lparr>createdTreeNodes :=
                            AList.update sParentNodeId (adoptChild parentNode newNode1) created1\<rparr>)
           | None \<Rightarrow>
               (let newNode1 =
                      (case map_of (tempNodes st) sNodeId of
                         None \<Rightarrow> newNode
                       | Some t \<Rightarrow> newNode\<lparr>c_count := c_count newNode + c_count t,
                                             c_children := c_children t\<rparr>)
                in st\<lparr>tree := tree st @ [sNodeId],
                        createdTreeNodes := AList.update sNodeId newNode1 (createdTreeNodes st)\<rparr>)))"

text \<open>
  The loop over \<open>tempNodes\<close> after the bindings: the children of a temporary parent are
  moved to the created node of the same id. A temporary parent that never got a node of
  its own makes \<open>createdNode\<close> undefined, and reading \<open>createdNode.children\<close> throws.
\<close>

definition pushMissing :: "string list \<Rightarrow> string list \<Rightarrow> string list" where
  "pushMissing cs childrenOfTemp =
     foldl (\<lambda>acc childOfTemp. if childOfTemp \<in> set acc then acc else acc @ [childOfTemp])
       cs childrenOfTemp"

fun reconcile :: "classDict \<Rightarrow> classDict \<Rightarrow> failure + classDict" where
  "reconcile [] created = Inr created"
| "reconcile ((tid, tempNode) # rest) created =
     (case map_of created (c_id tempNode) of
        None \<Rightarrow> if c_children tempNode = [] then reconcile rest created else Inl TypeError
      | Some createdNode \<Rightarrow>
          reconcile rest
            (AList.update (c_id tempNode)
               (createdNode\<lparr>c_children := pushMissing (c_children createdNode)
                                               (c_children tempNode)\<rparr>)
               created))"

text \<open>
  The end of \<open>getClassTree\<close>: the root class. The result is the list \<open>tree\<close>, the class
  objects by id (with the node of \<open>owl:Thing\<close>, created here when no binding declared
  it) and the id of the root class, \<open>None\<close> when \<open>pureClassTree[0]\<close> is undefined.
\<close>

definition chooseRootClass :: "string list \<Rightarrow> classDict \<Rightarrow> string list \<times> classDict \<times> string option" where
  "chooseRootClass tr created =
     (let pureClassTree = filter (\<lambda>i. i \<notin> set PRIMITIVE_TYPE) tr;
          thingKnown = (map_of created THING_URI \<noteq> None);
          thingNode = (case map_of created THING_URI of
                         Some t \<Rightarrow> t
                       | None \<Rightarrow> getClassModel THING_URI None None);
          tr1 = (if thingKnown then tr else tr @ [THING_URI])
      in if length pureClassTree > 1
         then (tr1,
               AList.update THING_URI
                 (thingNode\<lparr>c_children := c_children thingNode @ pureClassTree\<rparr>)
                 (map (\<lambda>(i, m). if i \<in> set pureClassTree
                                 then (i, m\<lparr>c_parent := Some THING_URI\<rparr>) else (i, m))
                    created),
               Some THING_URI)
         else (tr1, AList.update THING_URI thingNode created,
               case pureClassTree of [] \<Rightarrow> None | r # _ \<Rightarrow> Some r))"

definition classTreeOf :: "classBinding list \<Rightarrow> failure + string list \<times> classDict \<times> string option" where
  "classTreeOf sNodes =
     (let st = foldl classTreeStep \<lparr>tree = [], createdTreeNodes = [], tempNodes = []\<rparr> sNodes
      in case reconcile (tempNodes st) (createdTreeNodes st) of
           Inl e \<Rightarrow> Inl e
         | Inr created \<Rightarrow> Inr (chooseRootClass (tree st) created))"

text \<open>
  \<open>getConceptTree\<close>: one fresh concept per class node met below the root class,
  skipping the primitive types. New objects take the next free reference. The fuel is
  the recursion depth.
\<close>

definition classChildren :: "classDict \<Rightarrow> string \<Rightarrow> string list" where
  "classChildren classes cid = (case map_of classes cid of Some m \<Rightarrow> c_children m | None \<Rightarrow> [])"

definition classCount :: "classDict \<Rightarrow> string \<Rightarrow> nat" where
  "classCount classes cid = (case map_of classes cid of Some m \<Rightarrow> c_count m | None \<Rightarrow> 0)"

fun addConcept :: "nat \<Rightarrow> classDict \<Rightarrow> heap \<times> nat \<Rightarrow> string \<Rightarrow> ref \<Rightarrow> (heap \<times> nat) option"
  and addConceptEach ::
    "nat \<Rightarrow> classDict \<Rightarrow> heap \<times> nat \<Rightarrow> ref \<Rightarrow> string list \<Rightarrow> (heap \<times> nat) option"
where
  "addConcept 0 classes st classModel conceptModel = None"
| "addConcept (Suc n) classes st classModel conceptModel =
     addConceptEach n classes st conceptModel (classChildren classes classModel)"
| "addConceptEach n classes st conceptModel [] = Some st"
| "addConceptEach n classes (h, free) conceptModel (childClass # rest) =
     (if childClass \<notin> set PRIMITIVE_TYPE then
        (let childConcept = free;
             h1 = h(childConcept := getConceptModel childClass (classCount classes childClass));
             h2 = h1(conceptModel :=
                       (h1 conceptModel)\<lparr>children := children (h1 conceptModel) @ [childConcept]\<rparr>);
             h3 = h2(childConcept :=
                       (h2 childConcept)\<lparr>parent := parent (h2 childConcept) @ [conceptModel]\<rparr>)
         in case addConcept n classes (h3, Suc free) childClass childConcept of
              None \<Rightarrow> None
            | Some st1 \<Rightarrow> addConceptEach n classes st1 conceptModel rest)
      else addConceptEach n classes (h, free) conceptModel rest)"

definition emptyHeap :: heap where
  "emptyHeap = (\<lambda>_. getConceptModel [] 0)"

definition getConceptTree :: "nat \<Rightarrow> classDict \<Rightarrow> string \<Rightarrow> (heap \<times> ref) option" where
  "getConceptTree n classes rootClass =
     (let rootConcept = 0;
          h = emptyHeap(rootConcept := getConceptModel rootClass (classCount classes rootClass))
      in case addConcept n classes (h, Suc rootConcept) rootClass rootConcept of
           None \<Rightarrow> None
         | Some (h1, free) \<Rightarrow> Some (h1, rootConcept))"

text \<open>
  \<open>getClassTree\<close>: the class tree, then the concept tree of the root class, updated.
  An undefined root class makes \<open>getConceptFromClassModel\<close> throw.
\<close>

definition getClassTree ::
  "nat \<Rightarrow> classBinding list \<Rightarrow> failure + (string list \<times> classDict) \<times> heap \<times> ref" where
  "getClassTree n sNodes =
     (case classTreeOf sNodes of
        Inl e \<Rightarrow> Inl e
      | Inr (tr, classes, rootClass) \<Rightarrow>
          (case rootClass of
             None \<Rightarrow> Inl TypeError
           | Some r \<Rightarrow>
               (case getConceptTree n classes r of
                  None \<Rightarrow> Inl StackOverflow
                | Some (h, rootConcept) \<Rightarrow>
                    (case updateConceptTree n h rootConcept of
                       None \<Rightarrow> Inl StackOverflow
                     | Some h1 \<Rightarrow> Inr ((tr, classes), h1, rootConcept)))))"

section \<open>Loading the concept tree into the diagram model\<close>

text \<open>\<open>resetConceptList\<close>: the concepts below the root, parents first.\<close>

fun addConceptToList :: "nat \<Rightarrow> heap \<Rightarrow> ref list \<Rightarrow> ref \<Rightarrow> ref list option"
  and addConceptToListEach :: "nat \<Rightarrow> heap \<Rightarrow> ref list \<Rightarrow> ref list \<Rightarrow> ref list option"
where
  "addConceptToList 0 h acc c = None"
| "addConceptToList (Suc n) h acc c = addConceptToListEach n h (acc @ [c]) (children (h c))"
| "addConceptToListEach n h acc [] = Some acc"
| "addConceptToListEach n h acc (child # rest) =
     (case addConceptToList n h acc child of
        None \<Rightarrow> None
      | Some acc1 \<Rightarrow> addConceptToListEach n h acc1 rest)"

text \<open>
  \<open>conceptsById[item.id]\<close>: the last concept of the list with that id, since every
  concept of the list overwrites the entry of its id.
\<close>

definition conceptById :: "heap \<Rightarrow> ref list \<Rightarrow> string \<Rightarrow> ref option" where
  "conceptById h cs i = (case filter (\<lambda>c. ident (h c) = i) cs of [] \<Rightarrow> None | xs \<Rightarrow> Some (last xs))"

definition setPropertyCounts :: "heap \<Rightarrow> ref list \<Rightarrow> (string \<times> nat) list \<Rightarrow> heap" where
  "setPropertyCounts h cs counts =
     foldl (\<lambda>h1 (i, n). case conceptById h1 cs i of
                            None \<Rightarrow> h1
                          | Some c \<Rightarrow> h1(c := (h1 c)\<lparr>propertyCount := n\<rparr>))
       h counts"

definition setConceptTree ::
  "nat \<Rightarrow> diagram \<Rightarrow> heap \<Rightarrow> ref \<Rightarrow> (string \<times> nat) list \<Rightarrow> diagram option" where
  "setConceptTree n d h rootConcept counts =
     (case addConceptToList n h [] rootConcept of
        None \<Rightarrow> None
      | Some cs \<Rightarrow>
          (let h1 = setPropertyCounts h cs counts in
           case calcAllPaths n h1 rootConcept [] of
             None \<Rightarrow> None
           | Some ps \<Rightarrow> Some (d\<lparr>store := h1, concepts := cs, paths := ps\<rparr>)))"




section \<open>Example ontologies\<close>

text \<open>A binding with a class and, optionally, its parent; no label and no instance count.\<close>

definition subClass :: "string \<Rightarrow> string option \<Rightarrow> classBinding" where
  "subClass cid p = \<lparr>b_class = cid, b_label = None, b_instcount = None, b_parent = p\<rparr>"






section \<open>Class information\<close>











section \<open>Duplicate declarations of a class\<close>











section \<open>The concept tree of the instance bindings\<close>

text \<open>
  A binding of \<open>getInstanceConceptsTree\<close>: a concept and, optionally, its parent. The
  labels are not modelled. \<open>createdTreeNodes\<close> maps an id to its concept object; it is
  kept in insertion order, the order in which \<open>each\<close> visits an object keyed by IRIs.
  New objects take the next free reference.
\<close>

record conceptBinding =
  cb_concept :: string
  cb_parent :: "string option"

record instanceTreeState =
  nodes :: heap
  nextRef :: ref
  createdConcepts :: "(string \<times> ref) list"

text \<open>\<open>if (!createdTreeNodes[id]) { createdTreeNodes[id] = getConceptModel(...) }\<close>\<close>

definition ensureConcept :: "instanceTreeState \<Rightarrow> string \<Rightarrow> instanceTreeState" where
  "ensureConcept st cid =
     (case map_of (createdConcepts st) cid of
        Some r \<Rightarrow> st
      | None \<Rightarrow>
          st\<lparr>nodes := (nodes st)(nextRef st := getConceptModel cid 0),
              nextRef := Suc (nextRef st),
              createdConcepts := AList.update cid (nextRef st) (createdConcepts st)\<rparr>)"

definition linkConcepts :: "heap \<Rightarrow> ref \<Rightarrow> ref \<Rightarrow> heap" where
  "linkConcepts h parentNode node =
     (let h1 = h(parentNode := (h parentNode)\<lparr>children := children (h parentNode) @ [node]\<rparr>)
      in h1(node := (h1 node)\<lparr>parent := parent (h1 node) @ [parentNode]\<rparr>))"

definition instanceTreeStep :: "instanceTreeState \<Rightarrow> conceptBinding \<Rightarrow> instanceTreeState" where
  "instanceTreeStep st sNode =
     (let st1 = ensureConcept st (cb_concept sNode) in
      case cb_parent sNode of
        None \<Rightarrow> st1
      | Some parentNodeId \<Rightarrow>
          (let st2 = ensureConcept st1 parentNodeId in
           case (map_of (createdConcepts st2) parentNodeId,
                 map_of (createdConcepts st2) (cb_concept sNode)) of
             (Some parentNode, Some node) \<Rightarrow>
               st2\<lparr>nodes := linkConcepts (nodes st2) parentNode node\<rparr>
           | _ \<Rightarrow> st2))"

text \<open>
  \<open>getRootOfConceptsTree\<close>: the concepts without a parent; when there are several, a
  new concept of \<open>owl:Thing\<close> becomes the parent of each. The result is
  \<open>conceptsTree[0]\<close>, which is undefined (\<open>None\<close>) when no concept is without a parent.
\<close>

definition getRootOfConceptsTree :: "instanceTreeState \<Rightarrow> heap \<times> ref option" where
  "getRootOfConceptsTree st =
     (let conceptsTree = filter (\<lambda>node. parent (nodes st node) = [])
                           (map snd (createdConcepts st))
      in if length conceptsTree > 1
         then (let thingConcept = nextRef st;
                   h1 = (nodes st)(thingConcept := getConceptModel THING_URI 0)
               in (foldl (\<lambda>h c. linkConcepts h thingConcept c) h1 conceptsTree,
                   Some thingConcept))
         else (nodes st, case conceptsTree of [] \<Rightarrow> None | r # _ \<Rightarrow> Some r))"

text \<open>
  \<open>getInstanceConceptsTree\<close>. \<open>updateConceptTree(undefined)\<close> throws at
  \<open>concept.level = level\<close>.
\<close>

definition getInstanceConceptsTree :: "nat \<Rightarrow> conceptBinding list \<Rightarrow> failure + heap \<times> ref" where
  "getInstanceConceptsTree n sNodes =
     (let st = foldl instanceTreeStep
                 \<lparr>nodes = emptyHeap, nextRef = 0, createdConcepts = []\<rparr> sNodes;
          r = getRootOfConceptsTree st
      in case snd r of
           None \<Rightarrow> Inl TypeError
         | Some rootConcept \<Rightarrow>
             (case updateConceptTree n (fst r) rootConcept of
                None \<Rightarrow> Inl StackOverflow
              | Some h \<Rightarrow> Inr (h, rootConcept)))"

text \<open>Concepts with and without a parent.\<close>

definition subConcept :: "string \<Rightarrow> string option \<Rightarrow> conceptBinding" where
  "subConcept cid p = \<lparr>cb_concept = cid, cb_parent = p\<rparr>"

text \<open>Two concepts, each the parent of the other.\<close>

definition mutualParents :: "conceptBinding list" where
  "mutualParents = [subConcept ''o#Hen'' (Some ''o#Egg''), subConcept ''o#Egg'' (Some ''o#Hen'')]"

text \<open>Two unrelated concepts.\<close>

definition twoRoots :: "conceptBinding list" where
  "twoRoots = [subConcept ''o#Hen'' None, subConcept ''o#Stone'' None]"

text \<open>The class \<open>Animal\<close> declared below \<open>owl:Thing\<close>, which is declared as a class too.\<close>

definition belowThing :: "classBinding list" where
  "belowThing = [subClass THING_URI None, subClass ''o#Animal'' (Some THING_URI)]"

section \<open>Concepts within two links\<close>



text \<open>
  \<open>Bird\<close> is declared below \<open>Being\<close> and below \<open>Animal\<close>, \<open>Animal\<close> below \<open>Being\<close>, and
  \<open>Owl\<close> below \<open>Bird\<close>.
\<close>

definition shortcut :: "conceptBinding list" where
  "shortcut =
     [subConcept ''o#Bird'' (Some ''o#Being''),
      subConcept ''o#Animal'' (Some ''o#Being''),
      subConcept ''o#Bird'' (Some ''o#Animal''),
      subConcept ''o#Owl'' (Some ''o#Bird'')]"

section \<open>Ancestors, descendants and the marks of \<open>updateConceptTree\<close>\<close>

text \<open>The concepts strictly below a concept, and the \<open>parent\<close> arrays as a relation.\<close>

definition descendants :: "heap \<Rightarrow> ref \<Rightarrow> ref set" where
  "descendants h x = (childRel h)\<^sup>+ `` {x}"

definition parentRel :: "heap \<Rightarrow> (ref \<times> ref) set" where
  "parentRel h = {(p, c). p \<in> set (parent (h c))}"

text \<open>
  The builders push a child and its parent together: a concept is among the children of
  another exactly when the other is among its parents.
\<close>

definition linked :: "heap \<Rightarrow> bool" where
  "linked h = (\<forall>p c. (c \<in> set (children (h p))) = (p \<in> set (parent (h c))))"

text \<open>The arrays that \<open>updateConceptTree\<close> fills are empty, as the builders leave them.\<close>

definition unmarked :: "heap \<Rightarrow> bool" where
  "unmarked h = (\<forall>x. allSubConcepts (h x) = [] \<and> allSuperConcepts (h x) = [])"

text \<open>
  What the two traversals keep of a heap: the links and the basic levels; the recorded
  super concepts or sub concepts; and what they only extend.
\<close>

definition sameLinks :: "heap \<Rightarrow> heap \<Rightarrow> bool" where
  "sameLinks h h' =
     (\<forall>x. children (h' x) = children (h x) \<and> parent (h' x) = parent (h x)
          \<and> basicLevel (h' x) = basicLevel (h x))"

definition sameSupers :: "heap \<Rightarrow> heap \<Rightarrow> bool" where
  "sameSupers h h' = (\<forall>x. allSuperConcepts (h' x) = allSuperConcepts (h x))"

definition sameSubs :: "heap \<Rightarrow> heap \<Rightarrow> bool" where
  "sameSubs h h' = (\<forall>x. allSubConcepts (h' x) = allSubConcepts (h x))"

definition sameLevels :: "heap \<Rightarrow> heap \<Rightarrow> bool" where
  "sameLevels h h' = (\<forall>x. level (h' x) = level (h x))"

definition moreSubs :: "heap \<Rightarrow> heap \<Rightarrow> bool" where
  "moreSubs h h' = (\<forall>x. set (allSubConcepts (h x)) \<subseteq> set (allSubConcepts (h' x)))"

definition moreSupers :: "heap \<Rightarrow> heap \<Rightarrow> bool" where
  "moreSupers h h' = (\<forall>x. set (allSuperConcepts (h x)) \<subseteq> set (allSuperConcepts (h' x)))"

text \<open>\<open>covered\<close> is the union that the last visit of the concept computed.\<close>

definition coveredFits :: "heap \<Rightarrow> ref \<Rightarrow> bool" where
  "coveredFits h x =
     (covered (h x) = union3 (allSuperConcepts (h x)) (allSubConcepts (h x)) [x])"

text \<open>A parent and its super concepts are super concepts of the child.\<close>

definition edgeFits :: "heap \<Rightarrow> ref \<Rightarrow> ref \<Rightarrow> bool" where
  "edgeFits h p y = (insert p (set (allSuperConcepts (h p))) \<subseteq> set (allSuperConcepts (h y)))"

text \<open>Every recorded sub concept is below the concept, every recorded super concept above it.\<close>

definition subsSound :: "heap \<Rightarrow> bool" where
  "subsSound h = (\<forall>x. set (allSubConcepts (h x)) \<subseteq> descendants h x)"

definition supersSound :: "heap \<Rightarrow> bool" where
  "supersSound h = (\<forall>x. \<forall>a\<in>set (allSuperConcepts (h x)). (a, x) \<in> (parentRel h)\<^sup>+)"

text \<open>The heap after the first two steps of a visit of \<open>addSuperConcepts\<close>.\<close>

definition visited :: "heap \<Rightarrow> ref \<Rightarrow> heap" where
  "visited h c = updateCovered (addParents h c (parent (h c))) c"

text \<open>
  A heap as the builders hand it to \<open>updateConceptTree\<close>: the links are mutual, the
  arrays of sub and super concepts are empty, no level is assigned, and every basic level
  is \<open>0\<close>. From the reference \<open>free\<close> on, no concept has a link.
\<close>

definition unscored :: "heap \<Rightarrow> bool" where
  "unscored h = (\<forall>x. level (h x) = NaN \<and> basicLevel (h x) = Finite 0)"

definition pristine :: "heap \<Rightarrow> bool" where
  "pristine h = (linked h \<and> unmarked h \<and> unscored h)"

definition unusedFrom :: "heap \<Rightarrow> ref \<Rightarrow> bool" where
  "unusedFrom h free = (\<forall>x\<ge>free. children (h x) = [] \<and> parent (h x) = [])"

text \<open>The state of the loop of \<open>getInstanceConceptsTree\<close>.\<close>

definition instInv :: "instanceTreeState \<Rightarrow> bool" where
  "instInv st =
     (pristine (nodes st) \<and> unusedFrom (nodes st) (nextRef st)
      \<and> (\<forall>i r. map_of (createdConcepts st) i = Some r \<longrightarrow> r < nextRef st))"


section \<open>Auxiliary definitions for the bounds of the scores\<close>

text \<open>A number that is \<open>NaN\<close> or at most a bound.\<close>

definition nanOrAtMost :: "rat \<Rightarrow> jsnum \<Rightarrow> bool" where
  "nanOrAtMost b x = (x = NaN \<or> (\<exists>r. x = Finite r \<and> r \<le> b))"

text \<open>A number that is \<open>NaN\<close> or lies between \<open>0\<close> and \<open>1\<close>.\<close>

definition unitOrNaN :: "jsnum \<Rightarrow> bool" where
  "unitOrNaN x = (x = NaN \<or> (\<exists>r. x = Finite r \<and> 0 \<le> r \<and> r \<le> 1))"

text \<open>A maximum that was started from \<open>0\<close>: a number that is not negative, or infinity.\<close>

definition notNegative :: "jsnum \<Rightarrow> bool" where
  "notNegative x = (x = PosInf \<or> (\<exists>r. x = Finite r \<and> 0 \<le> r))"

text \<open>
  The steps of the walk to the super concepts: from a concept with a level to one of its
  parents (without a level the test of the walk fails).
\<close>

definition upRel :: "heap \<Rightarrow> (ref \<times> ref) set" where
  "upRel h = {(x, p). p \<in> set (parent (h x)) \<and> level (h x) \<noteq> NaN}"

text \<open>
  A heap as \<open>updateConceptTree\<close> leaves it with the fuel \<open>n\<close>: the links are mutual,
  every basic level is still \<open>0\<close>, exactly the concepts below the root have a level,
  and no chain of children from the root has \<open>n\<close> links.
\<close>

definition builtTree :: "nat \<Rightarrow> heap \<Rightarrow> ref \<Rightarrow> bool" where
  "builtTree n h r =
     (linked h \<and> (\<forall>x. basicLevel (h x) = Finite 0)
      \<and> (\<forall>x\<in>reach h r. \<exists>l. level (h x) = Finite l)
      \<and> (\<forall>x. x \<notin> reach h r \<longrightarrow> level (h x) = NaN)
      \<and> (\<forall>k x. (r, x) \<in> (childRel h) ^^ k \<longrightarrow> k < n))"

text \<open>
  The state of the vote count of \<open>calcBasicLevelOfConcepts\<close>: the maximum is \<open>0\<close> or at
  least \<open>1\<close>, and every basic level is a number between \<open>0\<close> and the maximum.
\<close>

definition votesInv :: "heap \<times> jsnum \<Rightarrow> bool" where
  "votesInv hm =
     (\<exists>M. snd hm = Finite M \<and> (M = 0 \<or> 1 \<le> M)
          \<and> (\<forall>x. \<exists>b. basicLevel (fst hm x) = Finite b \<and> 0 \<le> b \<and> b \<le> M))"

section \<open>The selection of the older diagram model\<close>






















section \<open>Lemmas about numbers, arrays and the selector\<close>

text \<open>
  For evaluation an updated heap stays an update, so that the object stored by an
  update is evaluated once, when it is stored, and not at every later read.
\<close>

lemma fun_upd_apply_code [code]: "(f(x := y)) z = (if z = x then y else f z)"
  by simp

lemma set_uniq [simp]: "set (uniq xs) = set xs" by (simp add: uniq_def)

lemma distinct_uniq [simp]: "distinct (uniq xs)" by (simp add: uniq_def)


lemma set_union2 [simp]: "set (union2 xs ys) = set xs \<union> set ys" by (simp add: union2_def)

lemma distinct_union2 [simp]: "distinct (union2 xs ys)" by (simp add: union2_def)

lemma set_difference [simp]: "set (difference xs ys) = set xs - set ys"
  by (auto simp: difference_def)


lemma jlt_irrefl [simp]: "\<not> jlt a a" by (cases a) auto

lemma jlt_trans: "jlt a b \<Longrightarrow> jlt b c \<Longrightarrow> jlt a c"
  by (cases a; cases b; cases c) auto

lemma jlt_NaN_right [simp]: "\<not> jlt a NaN" by (cases a) auto

lemma jlt_NaN_left [simp]: "\<not> jlt NaN a" by simp

lemma jmul_NaN_right [simp]: "jmul a NaN = NaN" by (cases a) auto
lemma jadd_NaN_right [simp]: "jadd a NaN = NaN" by (cases a) auto
lemma jdiv_NaN_right [simp]: "jdiv a NaN = NaN" by (cases a) auto

lemma running_max_upper:
  "\<forall>c\<in>set cs. \<not> jgt (f c) (foldl (\<lambda>m c. if jgt (f c) m then f c else m) m0 cs)"
proof (induction cs rule: rev_induct)
  case Nil
  show ?case by simp
next
  case (snoc x cs)
  let ?r = "foldl (\<lambda>m c. if jgt (f c) m then f c else m) m0 cs"
  show ?case
  proof (cases "jgt (f x) ?r")
    case True
    have "\<not> jgt (f c) (f x)" if "c \<in> set cs" for c
    proof
      assume "jgt (f c) (f x)"
      then have "jlt (f x) (f c)" by (simp add: jgt_def)
      moreover from True have "jlt ?r (f x)" by (simp add: jgt_def)
      ultimately have "jlt ?r (f c)" using jlt_trans by blast
      with snoc.IH that show False by (simp add: jgt_def)
    qed
    with True show ?thesis by (simp add: jgt_def)
  next
    case False
    with snoc.IH show ?thesis by simp
  qed
qed

lemma coverOfOtherConcepts_cong:
  assumes "\<forall>c. covered (h' c) = covered (h c)"
  shows "coverOfOtherConcepts h' cs c = coverOfOtherConcepts h cs c"
  using assms by (simp add: coverOfOtherConcepts_def cong: if_cong)

lemma contributionOf_cong:
  assumes "\<forall>c. covered (h' c) = covered (h c)"
  shows "contributionOf h' cs c = contributionOf h cs c"
  using assms coverOfOtherConcepts_cong [OF assms] by (simp add: contributionOf_def)

lemma contributionLoop_char:
  "contributionLoop cs rest (h, s) =
     (\<lambda>c. if c \<in> set rest then (h c)\<lparr>contribution := contributionOf h cs c\<rparr> else h c,
      foldl (\<lambda>a c. jadd a (contributionOf h cs c)) s rest)"
proof (induction rest arbitrary: h s)
  case Nil
  show ?case by simp
next
  case (Cons c rest)
  let ?h1 = "h(c := (h c)\<lparr>contribution := contributionOf h cs c\<rparr>)"
  have cov: "\<forall>d. covered (?h1 d) = covered (h d)" by simp
  have co: "\<And>d. contributionOf ?h1 cs d = contributionOf h cs d"
    by (rule contributionOf_cong) (rule cov)
  show ?case
    unfolding contributionLoop.simps Cons.IH co
    by (auto simp: fun_eq_iff)
qed

lemma overallScoreOf_cong:
  assumes "contribution (h' c) = contribution (h c)" "score (h' c) = score (h c)"
  shows "overallScoreOf mc h' c = overallScoreOf mc h c"
  using assms by (simp add: overallScoreOf_def)

lemma overallScoreLoop_char:
  "overallScoreLoop mc rest (h, s) =
     (\<lambda>c. if c \<in> set rest then (h c)\<lparr>overallScore := overallScoreOf mc h c\<rparr> else h c,
      foldl (\<lambda>a c. jadd a (overallScoreOf mc h c)) s rest)"
proof (induction rest arbitrary: h s)
  case Nil
  show ?case by simp
next
  case (Cons c rest)
  let ?h1 = "h(c := (h c)\<lparr>overallScore := overallScoreOf mc h c\<rparr>)"
  have co: "\<And>d. overallScoreOf mc ?h1 d = overallScoreOf mc h d"
    by (rule overallScoreOf_cong) simp_all
  show ?case
    unfolding overallScoreLoop.simps Cons.IH co
    by (auto simp: fun_eq_iff)
qed

lemma calcContribution_fst:
  "fst (calcContributionOfConcepts h cs) =
     (\<lambda>c. if c \<in> set cs then (h c)\<lparr>contribution := contributionOf h cs c\<rparr> else h c)"
  by (simp add: calcContributionOfConcepts_def contributionLoop_char)

lemma setAvgContribution_pure:
  "setAvgContribution h cs =
     jdiv (foldl (\<lambda>a c. jadd a (contributionOf h cs c)) (Finite 0) cs) (of_count (length cs))"
  by (simp add: setAvgContribution_def calcContributionOfConcepts_def contributionLoop_char)

lemma findMax_after_contribution:
  "findMaxContribution (fst (calcContributionOfConcepts h cs)) cs = maxContributionOf h cs"
  unfolding findMaxContribution_def maxContributionOf_def calcContribution_fst
  by (rule foldl_cong) simp_all

lemma overallScoreOf_after_contribution:
  "c \<in> set cs \<Longrightarrow>
   overallScoreOf (maxContributionOf h cs) (fst (calcContributionOfConcepts h cs)) c
     = pureOverall h cs c"
  by (simp add: overallScoreOf_def pureOverall_def calcContribution_fst)

lemma calcOverall_after_contribution:
  "calcOverallScoreOfConcepts (fst (calcContributionOfConcepts h cs)) cs =
     (scored h cs,
      jdiv (foldl (\<lambda>a c. jadd a (pureOverall h cs c)) (Finite 0) cs) (of_count (length cs)))"
proof -
  let ?h1 = "fst (calcContributionOfConcepts h cs)"
  have s: "foldl (\<lambda>a c. jadd a (overallScoreOf (maxContributionOf h cs) ?h1 c)) (Finite 0) cs
         = foldl (\<lambda>a c. jadd a (pureOverall h cs c)) (Finite 0) cs"
    by (rule foldl_cong) (simp_all add: overallScoreOf_after_contribution)
  have hp: "(\<lambda>c. if c \<in> set cs
                 then (?h1 c)\<lparr>overallScore := overallScoreOf (maxContributionOf h cs) ?h1 c\<rparr>
                 else ?h1 c) = scored h cs"
    unfolding scored_def fun_eq_iff
    by (simp add: overallScoreOf_after_contribution) (simp add: calcContribution_fst)
  show ?thesis
    unfolding calcOverallScoreOfConcepts_def findMax_after_contribution overallScoreLoop_char
    by (simp add: s hp)
qed

lemma setAvgOverallScore_pure:
  "setAvgOverallScore h cs =
     jdiv (foldl (\<lambda>a c. jadd a (pureOverall h cs c)) (Finite 0) cs) (of_count (length cs))"
  by (simp add: setAvgOverallScore_def calcOverall_after_contribution)

lemma covered_scored [simp]: "covered (scored h cs c) = covered (h c)"
  by (simp add: scored_def)

lemma score_scored [simp]: "score (scored h cs c) = score (h c)"
  by (simp add: scored_def)

lemma maxContributionOf_cong:
  assumes "\<forall>c. covered (h' c) = covered (h c)"
  shows "maxContributionOf h' cs = maxContributionOf h cs"
  by (simp add: maxContributionOf_def contributionOf_cong [OF assms] cong: if_cong)

lemma pureOverall_cong:
  assumes "\<forall>c. covered (h' c) = covered (h c)" "\<forall>c. score (h' c) = score (h c)"
  shows "pureOverall h' cs c = pureOverall h cs c"
  using assms(2)
  by (simp add: pureOverall_def contributionOf_cong [OF assms(1)]
      maxContributionOf_cong [OF assms(1)])

lemma setAvgContribution_cong:
  assumes "\<forall>c. covered (h' c) = covered (h c)"
  shows "setAvgContribution h' cs = setAvgContribution h cs"
  by (simp add: setAvgContribution_pure contributionOf_cong [OF assms])

lemma setAvgOverallScore_cong:
  assumes "\<forall>c. covered (h' c) = covered (h c)" "\<forall>c. score (h' c) = score (h c)"
  shows "setAvgOverallScore h' cs = setAvgOverallScore h cs"
  by (simp add: setAvgOverallScore_pure pureOverall_cong [OF assms])

lemma setAvgContribution_scored [simp]:
  "setAvgContribution (scored h xs) cs = setAvgContribution h cs"
  by (rule setAvgContribution_cong) simp

lemma setAvgOverallScore_scored [simp]:
  "setAvgOverallScore (scored h xs) cs = setAvgOverallScore h cs"
  by (rule setAvgOverallScore_cong) simp_all

lemma calcContribution_eq:
  "calcContributionOfConcepts h cs = (fst (calcContributionOfConcepts h cs), setAvgContribution h cs)"
  by (simp add: setAvgContribution_def)

lemma swapStep_char:
  "swapStep s r =
     (if jgt (setAvgOverallScore (sel_store s) (newConceptSetOf s r)) (avgOverallScore s)
         \<and> jge (setAvgContribution (sel_store s) (newConceptSetOf s r)) (avgContribution s)
      then \<lparr>sel_store = scored (sel_store s) (newConceptSetOf s r),
             bestConceptSet = newConceptSetOf s r,
             avgContribution = setAvgContribution (sel_store s) (newConceptSetOf s r),
             avgOverallScore = setAvgOverallScore (sel_store s) (newConceptSetOf s r)\<rparr>
      else s\<lparr>sel_store := scored (sel_store s) (newConceptSetOf s r)\<rparr>)"
proof -
  let ?n = "newConceptSetOf s r"
  obtain h1 a1 where c1: "calcContributionOfConcepts (sel_store s) ?n = (h1, a1)"
    by (cases "calcContributionOfConcepts (sel_store s) ?n")
  have a1: "a1 = setAvgContribution (sel_store s) ?n"
    using c1 by (simp add: setAvgContribution_def)
  have h1: "h1 = fst (calcContributionOfConcepts (sel_store s) ?n)"
    using c1 by simp
  have c2: "calcOverallScoreOfConcepts h1 ?n
      = (scored (sel_store s) ?n, setAvgOverallScore (sel_store s) ?n)"
    unfolding h1 by (simp add: calcOverall_after_contribution setAvgOverallScore_pure)
  show ?thesis
    by (simp add: swapStep_def Let_def c1 c2 a1)
qed

lemma initialSelection_char:
  "initialSelection h best =
     \<lparr>sel_store = scored h best, bestConceptSet = best,
      avgContribution = setAvgContribution h best,
      avgOverallScore = setAvgOverallScore h best\<rparr>"
proof -
  obtain h1 a1 where c1: "calcContributionOfConcepts h best = (h1, a1)"
    by (cases "calcContributionOfConcepts h best")
  have a1: "a1 = setAvgContribution h best"
    using c1 by (simp add: setAvgContribution_def)
  have h1: "h1 = fst (calcContributionOfConcepts h best)"
    using c1 by simp
  have c2: "calcOverallScoreOfConcepts h1 best = (scored h best, setAvgOverallScore h best)"
    unfolding h1 by (simp add: calcOverall_after_contribution setAvgOverallScore_pure)
  show ?thesis
    by (simp add: initialSelection_def c1 c2 a1)
qed

lemma initialSelection_consistent: "consistent (initialSelection h best)"
  by (simp add: initialSelection_char consistent_def)

lemma swapStep_consistent: "consistent s \<Longrightarrow> consistent (swapStep s r)"
  by (simp add: swapStep_char consistent_def)

lemma foldl_swapStep_consistent: "consistent s \<Longrightarrow> consistent (foldl swapStep s rs)"
  by (induction rs arbitrary: s) (simp_all add: swapStep_consistent)






section \<open>Lemmas about reachability and path enumeration\<close>


lemma reach_self: "s \<in> reach h s"
  by (simp add: reach_def)

lemma reach_child: "c \<in> set (children (h s)) \<Longrightarrow> reach h c \<subseteq> reach h s"
proof
  fix x assume c: "c \<in> set (children (h s))" and x: "x \<in> reach h c"
  from c have "(s, c) \<in> childRel h" by (simp add: childRel_def)
  moreover from x have "(c, x) \<in> (childRel h)\<^sup>*" by (simp add: reach_def)
  ultimately have "(s, x) \<in> (childRel h)\<^sup>*" by (rule converse_rtrancl_into_rtrancl)
  then show "x \<in> reach h s" by (simp add: reach_def)
qed

lemma calcAllPathsEach_ok:
  assumes "\<And>s. s \<in> set subs \<Longrightarrow>
             \<exists>ps. calcAllPaths n h s cur = Some ps \<and> (distinct cur \<longrightarrow> (\<forall>p\<in>set ps. distinct p))"
  shows "\<exists>ps. calcAllPathsEach n h subs cur res = Some ps
           \<and> (distinct cur \<longrightarrow> (\<forall>p\<in>set res. distinct p) \<longrightarrow> (\<forall>p\<in>set ps. distinct p))"
  using assms
proof (induction subs arbitrary: res)
  case Nil
  show ?case by simp
next
  case (Cons s subs)
  have "\<exists>ps. calcAllPaths n h s cur = Some ps \<and> (distinct cur \<longrightarrow> (\<forall>p\<in>set ps. distinct p))"
    by (rule Cons.prems) simp
  then obtain ps where
    ps: "calcAllPaths n h s cur = Some ps" "distinct cur \<longrightarrow> (\<forall>p\<in>set ps. distinct p)"
    by blast
  have "\<exists>qs. calcAllPathsEach n h subs cur (res @ ps) = Some qs
          \<and> (distinct cur \<longrightarrow> (\<forall>p\<in>set (res @ ps). distinct p) \<longrightarrow> (\<forall>p\<in>set qs. distinct p))"
    by (rule Cons.IH) (rule Cons.prems, simp)
  then obtain qs where
    qs: "calcAllPathsEach n h subs cur (res @ ps) = Some qs"
        "distinct cur \<longrightarrow> (\<forall>p\<in>set (res @ ps). distinct p) \<longrightarrow> (\<forall>p\<in>set qs. distinct p)"
    by blast
  have 1: "calcAllPathsEach n h (s # subs) cur res = Some qs"
    using ps(1) qs(1) by simp
  have 2: "distinct cur \<longrightarrow> (\<forall>p\<in>set res. distinct p) \<longrightarrow> (\<forall>p\<in>set qs. distinct p)"
  proof (intro impI)
    assume d: "distinct cur" and r: "\<forall>p\<in>set res. distinct p"
    from d ps(2) have "\<forall>p\<in>set ps. distinct p" by simp
    with r have "\<forall>p\<in>set (res @ ps). distinct p" by (simp add: ball_Un)
    with d qs(2) show "\<forall>p\<in>set qs. distinct p" by simp
  qed
  show ?case
    using 1 2 by blast
qed

lemma calcAllPaths_ok:
  assumes "finite (reach h start)" "card (reach h start - set path) < n"
  shows "\<exists>ps. calcAllPaths n h start path = Some ps
           \<and> (distinct path \<longrightarrow> (\<forall>p\<in>set ps. distinct p))"
  using assms
proof (induction n arbitrary: start path)
  case 0
  then show ?case by simp
next
  case (Suc n)
  show ?case
  proof (cases "start \<in> set path")
    case True
    then show ?thesis by simp
  next
    case False
    let ?cur = "path @ [start]"
    have dcur: "distinct path \<Longrightarrow> distinct ?cur" using False by simp
    show ?thesis
    proof (cases "children (h start) = []")
      case True
      with False dcur show ?thesis by simp
    next
      case nonempty: False
      have rec: "\<exists>ps. calcAllPaths n h s ?cur = Some ps
                   \<and> (distinct ?cur \<longrightarrow> (\<forall>p\<in>set ps. distinct p))"
        if s: "s \<in> set (children (h start))" for s
      proof (rule Suc.IH)
        have sub: "reach h s \<subseteq> reach h start" using s by (rule reach_child)
        show "finite (reach h s)" using sub Suc.prems(1) by (rule finite_subset)
        have fin: "finite (reach h start - set path)" using Suc.prems(1) by simp
        have "reach h s - set ?cur \<subseteq> (reach h start - set path) - {start}"
          using sub by auto
        moreover have "start \<in> reach h start - set path"
          using False by (simp add: reach_self)
        ultimately have "reach h s - set ?cur \<subset> reach h start - set path"
          by blast
        then have "card (reach h s - set ?cur) < card (reach h start - set path)"
          using fin by (simp add: psubset_card_mono)
        with Suc.prems(2) show "card (reach h s - set ?cur) < n" by simp
      qed
      have "\<exists>ps. calcAllPathsEach n h (children (h start)) ?cur [] = Some ps
           \<and> (distinct ?cur \<longrightarrow> (\<forall>p\<in>set ([]::ref list list). distinct p) \<longrightarrow> (\<forall>p\<in>set ps. distinct p))"
        by (rule calcAllPathsEach_ok) (rule rec)
      then obtain ps where ps: "calcAllPathsEach n h (children (h start)) ?cur [] = Some ps"
        "distinct ?cur \<longrightarrow> (\<forall>p\<in>set ps. distinct p)"
        by auto
      have e: "calcAllPaths (Suc n) h start path = Some ps"
        using False nonempty ps(1) by (simp add: Let_def)
      show ?thesis
        using e ps(2) dcur by blast
    qed
  qed
qed



lemma reach_closed:
  assumes "s \<in> S" "\<And>x. x \<in> S \<Longrightarrow> set (children (h x)) \<subseteq> S"
  shows "reach h s \<subseteq> S"
proof
  fix x assume "x \<in> reach h s"
  then have "(s, x) \<in> (childRel h)\<^sup>*" by (simp add: reach_def)
  then show "x \<in> S"
  proof (induction rule: rtrancl_induct)
    case base
    show ?case by (rule assms(1))
  next
    case (step y z)
    from step.hyps(2) have "z \<in> set (children (h y))" by (simp add: childRel_def)
    with assms(2) [OF step.IH] show ?case by blast
  qed
qed

lemma cyclicHeap_reach: "reach cyclicHeap 0 \<subseteq> {0, 1, 2, 3, 4}"
  by (rule reach_closed) (auto simp: cyclicHeap_def getConceptModel_def)


section \<open>Lemmas about \<open>updateConceptTree\<close>\<close>

lemma sameLinks_refl: "sameLinks h h" by (simp add: sameLinks_def)
lemma sameLinks_trans: "sameLinks h h1 \<Longrightarrow> sameLinks h1 h2 \<Longrightarrow> sameLinks h h2"
  by (simp add: sameLinks_def)
lemma sameSupers_refl: "sameSupers h h" by (simp add: sameSupers_def)
lemma sameSupers_trans: "sameSupers h h1 \<Longrightarrow> sameSupers h1 h2 \<Longrightarrow> sameSupers h h2"
  by (simp add: sameSupers_def)
lemma sameSubs_refl: "sameSubs h h" by (simp add: sameSubs_def)
lemma sameSubs_trans: "sameSubs h h1 \<Longrightarrow> sameSubs h1 h2 \<Longrightarrow> sameSubs h h2"
  by (simp add: sameSubs_def)
lemma moreSubs_refl: "moreSubs h h" by (simp add: moreSubs_def)
lemma moreSubs_trans: "moreSubs h h1 \<Longrightarrow> moreSubs h1 h2 \<Longrightarrow> moreSubs h h2"
  unfolding moreSubs_def by blast
lemma moreSupers_refl: "moreSupers h h" by (simp add: moreSupers_def)
lemma moreSupers_trans: "moreSupers h h1 \<Longrightarrow> moreSupers h1 h2 \<Longrightarrow> moreSupers h h2"
  unfolding moreSupers_def by blast

lemma sameLinks_childRel: "sameLinks h h' \<Longrightarrow> childRel h' = childRel h"
  by (simp add: sameLinks_def childRel_def)

lemma sameLinks_parentRel: "sameLinks h h' \<Longrightarrow> parentRel h' = parentRel h"
  by (simp add: sameLinks_def parentRel_def)

lemma sameLinks_reach: "sameLinks h h' \<Longrightarrow> reach h' = reach h"
  by (simp add: reach_def sameLinks_childRel fun_eq_iff)

lemma sameLinks_descendants: "sameLinks h h' \<Longrightarrow> descendants h' = descendants h"
  by (simp add: descendants_def sameLinks_childRel fun_eq_iff)

lemma sameLinks_children: "sameLinks h h' \<Longrightarrow> children (h' x) = children (h x)"
  by (simp add: sameLinks_def)

lemma sameLinks_parent: "sameLinks h h' \<Longrightarrow> parent (h' x) = parent (h x)"
  by (simp add: sameLinks_def)

lemma sameLinks_linked: "sameLinks h h' \<Longrightarrow> linked h \<Longrightarrow> linked h'"
  by (simp add: sameLinks_def linked_def)

lemma addSubConcept_frame:
  "addSubConcept n h c lvl = Some h' \<Longrightarrow> sameLinks h h' \<and> sameSupers h h' \<and> moreSubs h h'"
  "addSubConceptEach n h c lvl ys = Some h' \<Longrightarrow> sameLinks h h' \<and> sameSupers h h' \<and> moreSubs h h'"
proof (induction n h c lvl and n h c lvl ys arbitrary: h' and h'
       rule: addSubConcept_addSubConceptEach.induct)
  case (1 h c lvl)
  then show ?case by simp
next
  case (2 n h c lvl)
  let ?h0 = "h(c := (h c)\<lparr>level := lvl, allSubConcepts := allSubConcepts (h c) @ children (h c)\<rparr>)"
  have a: "sameLinks h ?h0 \<and> sameSupers h ?h0 \<and> moreSubs h ?h0"
    by (simp add: sameLinks_def sameSupers_def moreSubs_def)
  from 2(2) have e: "addSubConceptEach n ?h0 c (jadd lvl (Finite 1)) (children (h c)) = Some h'"
    by simp
  have "sameLinks ?h0 h' \<and> sameSupers ?h0 h' \<and> moreSubs ?h0 h'" by (rule 2(1) [OF e])
  with a show ?case
    by (blast intro: sameLinks_trans sameSupers_trans moreSubs_trans)
next
  case (3 n h c childLevel)
  then show ?case by (simp add: sameLinks_refl sameSupers_refl moreSubs_refl)
next
  case (4 n h c childLevel child rest)
  from 4(3) obtain h1 where h1: "addSubConcept n h child childLevel = Some h1"
    by (auto split: option.splits)
  let ?h2 = "h1(c := (h1 c)\<lparr>allSubConcepts := allSubConcepts (h1 c) @ allSubConcepts (h1 child),
                              indirectSubConcepts :=
                                indirectSubConcepts (h1 c) @ allSubConcepts (h1 child)\<rparr>)"
  from 4(3) h1 have rest: "addSubConceptEach n ?h2 c childLevel rest = Some h'" by simp
  note a = 4(1) [OF h1]
  have b: "sameLinks h1 ?h2 \<and> sameSupers h1 ?h2 \<and> moreSubs h1 ?h2"
    by (simp add: sameLinks_def sameSupers_def moreSubs_def)
  note c = 4(2) [OF h1 rest]
  from a b c show ?case
    by (blast intro: sameLinks_trans sameSupers_trans moreSubs_trans)
qed

lemma reach_cases:
  assumes "x \<in> reach h c"
  shows "x = c \<or> (\<exists>y\<in>set (children (h c)). x \<in> reach h y)"
proof -
  from assms have "(c, x) \<in> (childRel h)\<^sup>*" by (simp add: reach_def)
  then show ?thesis
  proof (cases rule: converse_rtranclE)
    case base
    then show ?thesis by simp
  next
    case (step y)
    then show ?thesis by (auto simp: childRel_def reach_def)
  qed
qed

lemma descendants_cases:
  assumes "x \<in> descendants h c"
  shows "\<exists>y\<in>set (children (h c)). x = y \<or> x \<in> descendants h y"
proof -
  from assms have "(c, x) \<in> (childRel h)\<^sup>+" by (simp add: descendants_def)
  then have "(c, x) \<in> childRel h \<or> (\<exists>y. (c, y) \<in> childRel h \<and> (y, x) \<in> (childRel h)\<^sup>+)"
    by (metis converse_tranclE)
  then show ?thesis by (auto simp: childRel_def descendants_def)
qed

lemma descendants_child:
  assumes "y \<in> set (children (h c))"
  shows "y \<in> descendants h c" and "descendants h y \<subseteq> descendants h c"
proof -
  from assms have e: "(c, y) \<in> childRel h" by (simp add: childRel_def)
  then show "y \<in> descendants h c" by (auto simp: descendants_def)
  show "descendants h y \<subseteq> descendants h c"
    using e by (auto simp: descendants_def intro: trancl_into_trancl2)
qed

lemma subsSound_cong:
  assumes "sameLinks h h'" "\<forall>x. set (allSubConcepts (h' x)) \<subseteq> descendants h x"
  shows "subsSound h'"
  using assms by (simp add: subsSound_def sameLinks_descendants)

lemma addSubConcept_sound:
  "addSubConcept n h c lvl = Some h' \<Longrightarrow> subsSound h \<Longrightarrow> subsSound h'"
  "addSubConceptEach n h c lvl ys = Some h' \<Longrightarrow> set ys \<subseteq> set (children (h c)) \<Longrightarrow>
     subsSound h \<Longrightarrow> subsSound h'"
proof (induction n h c lvl and n h c lvl ys arbitrary: h' and h'
       rule: addSubConcept_addSubConceptEach.induct)
  case (1 h c lvl)
  then show ?case by simp
next
  case (2 n h c lvl)
  let ?h0 = "h(c := (h c)\<lparr>level := lvl, allSubConcepts := allSubConcepts (h c) @ children (h c)\<rparr>)"
  from 2(2) have e: "addSubConceptEach n ?h0 c (jadd lvl (Finite 1)) (children (h c)) = Some h'"
    by simp
  have links: "sameLinks h ?h0" by (simp add: sameLinks_def)
  have "\<forall>x. set (allSubConcepts (?h0 x)) \<subseteq> descendants h x"
    using 2(3) descendants_child(1) [of _ h c] by (auto simp: subsSound_def)
  with links have s: "subsSound ?h0" by (rule subsSound_cong)
  have "set (children (h c)) \<subseteq> set (children (?h0 c))" by simp
  from 2(1) [OF e this s] show ?case .
next
  case (3 n h c childLevel)
  then show ?case by simp
next
  case (4 n h c childLevel child rest)
  from 4(3) obtain h1 where h1: "addSubConcept n h child childLevel = Some h1"
    by (auto split: option.splits)
  let ?h2 = "h1(c := (h1 c)\<lparr>allSubConcepts := allSubConcepts (h1 c) @ allSubConcepts (h1 child),
                              indirectSubConcepts :=
                                indirectSubConcepts (h1 c) @ allSubConcepts (h1 child)\<rparr>)"
  from 4(3) h1 have rest: "addSubConceptEach n ?h2 c childLevel rest = Some h'" by simp
  from addSubConcept_frame(1) [OF h1] have l1: "sameLinks h h1" by simp
  have s1: "subsSound h1" by (rule 4(1) [OF h1 4(5)])
  from 4(4) l1 have ch: "child \<in> set (children (h1 c))" "set rest \<subseteq> set (children (h1 c))"
    by (simp_all add: sameLinks_children)
  have links: "sameLinks h1 ?h2" by (simp add: sameLinks_def)
  have "\<forall>x. set (allSubConcepts (?h2 x)) \<subseteq> descendants h1 x"
    using s1 descendants_child(2) [of child h1 c] ch(1) by (auto simp: subsSound_def)
  with links have s2: "subsSound ?h2" by (rule subsSound_cong)
  have "set rest \<subseteq> set (children (?h2 c))" using ch(2) by simp
  from 4(2) [OF h1 rest this s2] show ?case .
qed

lemma addSubConcept_complete:
  "addSubConcept n h c lvl = Some h' \<Longrightarrow>
     \<forall>x\<in>reach h c. descendants h x \<subseteq> set (allSubConcepts (h' x))"
  "addSubConceptEach n h c lvl ys = Some h' \<Longrightarrow>
     \<forall>y\<in>set ys. descendants h y \<subseteq> set (allSubConcepts (h' c))
        \<and> (\<forall>x\<in>reach h y. descendants h x \<subseteq> set (allSubConcepts (h' x)))"
proof (induction n h c lvl and n h c lvl ys arbitrary: h' and h'
       rule: addSubConcept_addSubConceptEach.induct)
  case (1 h c lvl)
  then show ?case by simp
next
  case (2 n h c lvl)
  let ?h0 = "h(c := (h c)\<lparr>level := lvl, allSubConcepts := allSubConcepts (h c) @ children (h c)\<rparr>)"
  from 2(2) have e: "addSubConceptEach n ?h0 c (jadd lvl (Finite 1)) (children (h c)) = Some h'"
    by simp
  have links: "sameLinks h ?h0" by (simp add: sameLinks_def)
  note ih = 2(1) [OF e, unfolded sameLinks_descendants [OF links] sameLinks_reach [OF links]]
  from addSubConcept_frame(2) [OF e] have "moreSubs ?h0 h'" by simp
  then have "set (allSubConcepts (?h0 c)) \<subseteq> set (allSubConcepts (h' c))"
    unfolding moreSubs_def by blast
  then have kids: "set (children (h c)) \<subseteq> set (allSubConcepts (h' c))" by simp
  show ?case
  proof
    fix x assume "x \<in> reach h c"
    then consider "x = c" | y where "y \<in> set (children (h c))" "x \<in> reach h y"
      using reach_cases by blast
    then show "descendants h x \<subseteq> set (allSubConcepts (h' x))"
    proof cases
      case 1
      show ?thesis
      proof
        fix z assume "z \<in> descendants h x"
        then obtain y where y: "y \<in> set (children (h c))" "z = y \<or> z \<in> descendants h y"
          using descendants_cases 1 by blast
        with ih kids show "z \<in> set (allSubConcepts (h' x))" unfolding 1 by blast
      qed
    next
      case 2
      with ih show ?thesis by blast
    qed
  qed
next
  case (3 n h c childLevel)
  then show ?case by simp
next
  case (4 n h c childLevel child rest)
  from 4(3) obtain h1 where h1: "addSubConcept n h child childLevel = Some h1"
    by (auto split: option.splits)
  let ?h2 = "h1(c := (h1 c)\<lparr>allSubConcepts := allSubConcepts (h1 c) @ allSubConcepts (h1 child),
                              indirectSubConcepts :=
                                indirectSubConcepts (h1 c) @ allSubConcepts (h1 child)\<rparr>)"
  from 4(3) h1 have rest: "addSubConceptEach n ?h2 c childLevel rest = Some h'" by simp
  from addSubConcept_frame(1) [OF h1] have l1: "sameLinks h h1" by simp
  have l2: "sameLinks h1 ?h2" and m2: "moreSubs h1 ?h2"
    by (simp_all add: sameLinks_def moreSubs_def)
  from l1 l2 have l: "sameLinks h ?h2" by (rule sameLinks_trans)
  from addSubConcept_frame(2) [OF rest] have m3: "moreSubs ?h2 h'" by simp
  from m2 m3 have m: "moreSubs h1 h'" by (rule moreSubs_trans)
  note a = 4(1) [OF h1]
  note b = 4(2) [OF h1 rest, unfolded sameLinks_descendants [OF l] sameLinks_reach [OF l]]
  have first: "\<forall>x\<in>reach h child. descendants h x \<subseteq> set (allSubConcepts (h' x))"
    using a m unfolding moreSubs_def by blast
  from a have "descendants h child \<subseteq> set (allSubConcepts (h1 child))"
    using reach_self by blast
  then have "descendants h child \<subseteq> set (allSubConcepts (?h2 c))" by auto
  with m3 have second: "descendants h child \<subseteq> set (allSubConcepts (h' c))"
    unfolding moreSubs_def by blast
  from first second b show ?case by simp
qed

lemma sameLinks_basicLevel: "sameLinks h h' \<Longrightarrow> basicLevel (h' x) = basicLevel (h x)"
  by (simp add: sameLinks_def)

text \<open>The levels of the visited concepts are numbers; the other concepts keep theirs.\<close>

lemma addSubConcept_levels:
  "addSubConcept n h c lvl = Some h' \<Longrightarrow> \<exists>l. lvl = Finite l \<Longrightarrow>
     (\<forall>x\<in>reach h c. \<exists>r. level (h' x) = Finite r)
     \<and> (\<forall>x. x \<notin> reach h c \<longrightarrow> level (h' x) = level (h x))
     \<and> (\<forall>x. (\<exists>r. level (h x) = Finite r) \<longrightarrow> (\<exists>r. level (h' x) = Finite r))"
  "addSubConceptEach n h c lvl ys = Some h' \<Longrightarrow> \<exists>l. lvl = Finite l \<Longrightarrow>
     (\<forall>y\<in>set ys. \<forall>x\<in>reach h y. \<exists>r. level (h' x) = Finite r)
     \<and> (\<forall>x. x \<notin> (\<Union>y\<in>set ys. reach h y) \<longrightarrow> level (h' x) = level (h x))
     \<and> (\<forall>x. (\<exists>r. level (h x) = Finite r) \<longrightarrow> (\<exists>r. level (h' x) = Finite r))"
proof (induction n h c lvl and n h c lvl ys arbitrary: h' and h'
       rule: addSubConcept_addSubConceptEach.induct)
  case (1 h c lvl)
  then show ?case by simp
next
  case (2 n h c lvl)
  let ?h0 = "h(c := (h c)\<lparr>level := lvl, allSubConcepts := allSubConcepts (h c) @ children (h c)\<rparr>)"
  from 2(2) have e: "addSubConceptEach n ?h0 c (jadd lvl (Finite 1)) (children (h c)) = Some h'"
    by simp
  from 2(3) obtain l where l: "lvl = Finite l" by blast
  then have l1: "\<exists>r. jadd lvl (Finite 1) = Finite r" by simp
  have links: "sameLinks h ?h0" by (simp add: sameLinks_def)
  note ih = 2(1) [OF e l1, unfolded sameLinks_reach [OF links]]
  have c0: "\<exists>r. level (?h0 c) = Finite r" using l by simp
  show ?case
  proof (intro conjI ballI allI impI)
    fix x assume "x \<in> reach h c"
    then consider "x = c" | y where "y \<in> set (children (h c))" "x \<in> reach h y"
      using reach_cases by blast
    then show "\<exists>r. level (h' x) = Finite r"
    proof cases
      case 1
      with ih c0 show ?thesis by blast
    next
      case 2
      with ih show ?thesis by blast
    qed
  next
    fix x assume x: "x \<notin> reach h c"
    then have "x \<noteq> c" using reach_self by blast
    moreover have "x \<notin> (\<Union>y\<in>set (children (h c)). reach h y)"
      using x reach_child by blast
    ultimately show "level (h' x) = level (h x)" using ih by simp
  next
    fix x assume "\<exists>r. level (h x) = Finite r"
    then have "\<exists>r. level (?h0 x) = Finite r" using l by simp
    with ih show "\<exists>r. level (h' x) = Finite r" by blast
  qed
next
  case (3 n h c childLevel)
  then show ?case by simp
next
  case (4 n h c childLevel child rest)
  from 4(3) obtain h1 where h1: "addSubConcept n h child childLevel = Some h1"
    by (auto split: option.splits)
  let ?h2 = "h1(c := (h1 c)\<lparr>allSubConcepts := allSubConcepts (h1 c) @ allSubConcepts (h1 child),
                              indirectSubConcepts :=
                                indirectSubConcepts (h1 c) @ allSubConcepts (h1 child)\<rparr>)"
  from 4(3) h1 have rest: "addSubConceptEach n ?h2 c childLevel rest = Some h'" by simp
  from addSubConcept_frame(1) [OF h1] have l1: "sameLinks h h1" by simp
  have l2: "sameLinks h1 ?h2" by (simp add: sameLinks_def)
  from l1 l2 have l: "sameLinks h ?h2" by (rule sameLinks_trans)
  note a = 4(1) [OF h1 4(4)]
  note b = 4(2) [OF h1 rest 4(4), unfolded sameLinks_reach [OF l]]
  have lev2: "level (?h2 x) = level (h1 x)" for x by simp
  show ?case
  proof (intro conjI ballI allI impI)
    fix y x assume "y \<in> set (child # rest)" "x \<in> reach h y"
    then consider "x \<in> reach h child" | y' where "y' \<in> set rest" "x \<in> reach h y'" by auto
    then show "\<exists>r. level (h' x) = Finite r"
    proof cases
      case 1
      with a have "\<exists>r. level (h1 x) = Finite r" by blast
      then have "\<exists>r. level (?h2 x) = Finite r" unfolding lev2 .
      with b show ?thesis by blast
    next
      case 2
      with b show ?thesis by blast
    qed
  next
    fix x assume x: "x \<notin> (\<Union>y\<in>set (child # rest). reach h y)"
    then have x1: "x \<notin> reach h child" and x2: "x \<notin> (\<Union>y\<in>set rest. reach h y)" by auto
    from b x2 have "level (h' x) = level (?h2 x)" by blast
    also have "\<dots> = level (h1 x)" by (rule lev2)
    also from a x1 have "\<dots> = level (h x)" by blast
    finally show "level (h' x) = level (h x)" .
  next
    fix x assume "\<exists>r. level (h x) = Finite r"
    with a have "\<exists>r. level (h1 x) = Finite r" by blast
    then have "\<exists>r. level (?h2 x) = Finite r" unfolding lev2 .
    with b show "\<exists>r. level (h' x) = Finite r" by blast
  qed
qed

text \<open>A traversal that returns has walked every chain of child links to its end.\<close>

lemma addSubConcept_depth:
  "addSubConcept n h c lvl = Some h' \<Longrightarrow> \<forall>k x. (c, x) \<in> (childRel h) ^^ k \<longrightarrow> k < n"
  "addSubConceptEach n h c lvl ys = Some h' \<Longrightarrow>
     \<forall>y\<in>set ys. \<forall>k x. (y, x) \<in> (childRel h) ^^ k \<longrightarrow> k < n"
proof (induction n h c lvl and n h c lvl ys arbitrary: h' and h'
       rule: addSubConcept_addSubConceptEach.induct)
  case (1 h c lvl)
  then show ?case by simp
next
  case (2 n h c lvl)
  let ?h0 = "h(c := (h c)\<lparr>level := lvl, allSubConcepts := allSubConcepts (h c) @ children (h c)\<rparr>)"
  from 2(2) have e: "addSubConceptEach n ?h0 c (jadd lvl (Finite 1)) (children (h c)) = Some h'"
    by simp
  have links: "sameLinks h ?h0" by (simp add: sameLinks_def)
  note ih = 2(1) [OF e, unfolded sameLinks_childRel [OF links]]
  show ?case
  proof (intro allI impI)
    fix k x assume p: "(c, x) \<in> (childRel h) ^^ k"
    show "k < Suc n"
    proof (cases k)
      case 0
      then show ?thesis by simp
    next
      case (Suc k')
      with p obtain y where "(c, y) \<in> childRel h" "(y, x) \<in> (childRel h) ^^ k'"
        by (metis relpow_Suc_D2)
      then have "y \<in> set (children (h c))" "(y, x) \<in> (childRel h) ^^ k'"
        by (simp_all add: childRel_def)
      with ih have "k' < n" by blast
      with Suc show ?thesis by simp
    qed
  qed
next
  case (3 n h c childLevel)
  then show ?case by simp
next
  case (4 n h c childLevel child rest)
  from 4(3) obtain h1 where h1: "addSubConcept n h child childLevel = Some h1"
    by (auto split: option.splits)
  let ?h2 = "h1(c := (h1 c)\<lparr>allSubConcepts := allSubConcepts (h1 c) @ allSubConcepts (h1 child),
                              indirectSubConcepts :=
                                indirectSubConcepts (h1 c) @ allSubConcepts (h1 child)\<rparr>)"
  from 4(3) h1 have rest: "addSubConceptEach n ?h2 c childLevel rest = Some h'" by simp
  from addSubConcept_frame(1) [OF h1] have l1: "sameLinks h h1" by simp
  have l2: "sameLinks h1 ?h2" by (simp add: sameLinks_def)
  from l1 l2 have l: "sameLinks h ?h2" by (rule sameLinks_trans)
  note a = 4(1) [OF h1]
  note b = 4(2) [OF h1 rest, unfolded sameLinks_childRel [OF l]]
  from a b show ?case by simp
qed

lemma sameLevels_refl: "sameLevels h h" by (simp add: sameLevels_def)
lemma sameLevels_trans: "sameLevels h h1 \<Longrightarrow> sameLevels h1 h2 \<Longrightarrow> sameLevels h h2"
  by (simp add: sameLevels_def)

lemma addParents_other: "x \<noteq> c \<Longrightarrow> addParents h c ps x = h x"
  by (induction ps arbitrary: h) (simp_all add: Let_def)

lemma addParents_self:
  "\<exists>A. addParents h c ps c = (h c)\<lparr>allSuperConcepts := allSuperConcepts (h c) @ A\<rparr>"
proof (induction ps arbitrary: h)
  case Nil
  have "h c = (h c)\<lparr>allSuperConcepts := allSuperConcepts (h c) @ []\<rparr>" by simp
  then show ?case by (metis addParents.simps(1))
next
  case (Cons p ps)
  let ?h1 = "h(c := (h c)\<lparr>allSuperConcepts := allSuperConcepts (h c) @ [p]\<rparr>)"
  let ?h2 = "?h1(c := (?h1 c)\<lparr>allSuperConcepts :=
                                  allSuperConcepts (?h1 c) @ allSuperConcepts (?h1 p)\<rparr>)"
  from Cons [of ?h2] obtain A where
    A: "addParents ?h2 c ps c = (?h2 c)\<lparr>allSuperConcepts := allSuperConcepts (?h2 c) @ A\<rparr>"
    by blast
  have "addParents h c (p # ps) c
      = (h c)\<lparr>allSuperConcepts := allSuperConcepts (h c) @ ([p] @ allSuperConcepts (?h1 p) @ A)\<rparr>"
    using A by (simp add: Let_def)
  then show ?case by blast
qed

lemma addParents_frame:
  "sameLinks h (addParents h c ps) \<and> sameSubs h (addParents h c ps)
   \<and> sameLevels h (addParents h c ps) \<and> moreSupers h (addParents h c ps)
   \<and> (\<forall>x. covered (addParents h c ps x) = covered (h x))"
proof -
  obtain A where A: "addParents h c ps c = (h c)\<lparr>allSuperConcepts := allSuperConcepts (h c) @ A\<rparr>"
    using addParents_self by blast
  have "addParents h c ps x = (if x = c then (h c)\<lparr>allSuperConcepts := allSuperConcepts (h c) @ A\<rparr>
                               else h x)" for x
    using A addParents_other [of x c h ps] by simp
  then show ?thesis
    by (simp add: sameLinks_def sameSubs_def sameLevels_def moreSupers_def)
qed

lemma addParents_takes:
  assumes "p \<in> set ps" "p \<noteq> c"
  shows "insert p (set (allSuperConcepts (h p))) \<subseteq> set (allSuperConcepts (addParents h c ps c))"
  using assms(1)
proof (induction ps arbitrary: h)
  case Nil
  then show ?case by simp
next
  case (Cons q ps)
  let ?h1 = "h(c := (h c)\<lparr>allSuperConcepts := allSuperConcepts (h c) @ [q]\<rparr>)"
  let ?h2 = "?h1(c := (?h1 c)\<lparr>allSuperConcepts :=
                                  allSuperConcepts (?h1 c) @ allSuperConcepts (?h1 q)\<rparr>)"
  have step: "addParents h c (q # ps) = addParents ?h2 c ps" by (simp add: Let_def)
  have p2: "allSuperConcepts (?h2 p) = allSuperConcepts (h p)" using assms(2) by simp
  from addParents_frame [of ?h2 c ps] have m: "moreSupers ?h2 (addParents ?h2 c ps)" by simp
  show ?case
  proof (cases "p = q")
    case True
    have "insert p (set (allSuperConcepts (h p))) \<subseteq> set (allSuperConcepts (?h2 c))"
      using True assms(2) by auto
    with m show ?thesis unfolding step moreSupers_def by blast
  next
    case False
    with Cons.prems have "p \<in> set ps" by simp
    from Cons.IH [OF this, of ?h2] show ?thesis unfolding step p2 .
  qed
qed

lemma addParents_sound:
  assumes "supersSound h" "set ps \<subseteq> set (parent (h c))"
  shows "supersSound (addParents h c ps)"
  using assms
proof (induction ps arbitrary: h)
  case Nil
  then show ?case by simp
next
  case (Cons q ps)
  let ?h1 = "h(c := (h c)\<lparr>allSuperConcepts := allSuperConcepts (h c) @ [q]\<rparr>)"
  let ?h2 = "?h1(c := (?h1 c)\<lparr>allSuperConcepts :=
                                  allSuperConcepts (?h1 c) @ allSuperConcepts (?h1 q)\<rparr>)"
  have step: "addParents h c (q # ps) = addParents ?h2 c ps" by (simp add: Let_def)
  have pr: "parentRel ?h2 = parentRel h" by (auto simp: parentRel_def)
  from Cons.prems(2) have q: "(q, c) \<in> parentRel h" by (simp add: parentRel_def)
  have s1: "\<forall>a\<in>set (allSuperConcepts (?h1 x)). (a, x) \<in> (parentRel h)\<^sup>+" for x
    using Cons.prems(1) q by (auto simp: supersSound_def)
  have "\<forall>a\<in>set (allSuperConcepts (?h2 x)). (a, x) \<in> (parentRel h)\<^sup>+" for x
  proof (cases "x = c")
    case False
    then show ?thesis using s1 [of x] by simp
  next
    case True
    have "(a, c) \<in> (parentRel h)\<^sup>+" if "a \<in> set (allSuperConcepts (?h1 q))" for a
    proof -
      from s1 [of q] that have "(a, q) \<in> (parentRel h)\<^sup>+" by blast
      then show ?thesis using q by (rule trancl_into_trancl)
    qed
    with s1 [of c] show ?thesis unfolding True by auto
  qed
  then have s2: "supersSound ?h2" unfolding supersSound_def pr by blast
  have "set ps \<subseteq> set (parent (?h2 c))" using Cons.prems(2) by simp
  from Cons.IH [OF s2 this] show ?case unfolding step .
qed

lemma visited_other: "x \<noteq> c \<Longrightarrow> visited h c x = h x"
  by (simp add: visited_def updateCovered_def addParents_other)

lemma visited_frame:
  "sameLinks h (visited h c) \<and> sameSubs h (visited h c) \<and> sameLevels h (visited h c)
   \<and> moreSupers h (visited h c)"
  using addParents_frame [of h c "parent (h c)"]
  by (simp add: visited_def updateCovered_def sameLinks_def sameSubs_def sameLevels_def
      moreSupers_def)

lemma visited_supers:
  "allSuperConcepts (visited h c x) = allSuperConcepts (addParents h c (parent (h c)) x)"
  by (simp add: visited_def updateCovered_def)

lemma visited_covered: "coveredFits (visited h c) c"
  by (simp add: visited_def updateCovered_def coveredFits_def)

lemma visited_sound: "supersSound h \<Longrightarrow> supersSound (visited h c)"
proof -
  assume "supersSound h"
  then have s: "supersSound (addParents h c (parent (h c)))" by (rule addParents_sound) simp
  from visited_frame [of h c] have "parentRel (visited h c) = parentRel h"
    by (simp add: sameLinks_parentRel)
  moreover from addParents_frame [of h c "parent (h c)"]
  have "parentRel (addParents h c (parent (h c))) = parentRel h"
    by (simp add: sameLinks_parentRel)
  ultimately show ?thesis
    using s by (simp add: supersSound_def visited_supers)
qed

lemma visited_takes:
  assumes "p \<in> set (parent (h c))" "p \<noteq> c"
  shows "insert p (set (allSuperConcepts (h p))) \<subseteq> set (allSuperConcepts (visited h c c))"
  unfolding visited_supers using assms by (rule addParents_takes)

lemma addSuperConcepts_unfold:
  "addSuperConcepts (Suc n) h c = addSuperConceptsEach n (visited h c) (children (h c))"
  by (simp add: visited_def)

lemma addSuperConcepts_frame:
  "addSuperConcepts n h c = Some h' \<Longrightarrow>
     sameLinks h h' \<and> sameSubs h h' \<and> sameLevels h h' \<and> moreSupers h h'"
  "addSuperConceptsEach n h ys = Some h' \<Longrightarrow>
     sameLinks h h' \<and> sameSubs h h' \<and> sameLevels h h' \<and> moreSupers h h'"
proof (induction n h c and n h ys arbitrary: h' and h'
       rule: addSuperConcepts_addSuperConceptsEach.induct)
  case (1 h c)
  then show ?case by simp
next
  case (2 n h c)
  from 2(2) have e: "addSuperConceptsEach n (visited h c) (children (h c)) = Some h'"
    by (simp add: visited_def)
  have "sameLinks (visited h c) h' \<and> sameSubs (visited h c) h' \<and> sameLevels (visited h c) h'
      \<and> moreSupers (visited h c) h'"
    by (rule 2(1) [unfolded visited_def [symmetric], OF e])
  with visited_frame [of h c] show ?case
    by (blast intro: sameLinks_trans sameSubs_trans sameLevels_trans moreSupers_trans)
next
  case (3 n h)
  then show ?case
    by (simp add: sameLinks_refl sameSubs_refl sameLevels_refl moreSupers_refl)
next
  case (4 n h child rest)
  from 4(3) obtain h1 where h1: "addSuperConcepts n h child = Some h1"
    by (auto split: option.splits)
  from 4(3) h1 have rest: "addSuperConceptsEach n h1 rest = Some h'" by simp
  from 4(1) [OF h1] 4(2) [OF h1 rest] show ?case
    by (blast intro: sameLinks_trans sameSubs_trans sameLevels_trans moreSupers_trans)
qed

lemma addSuperConcepts_outside:
  "addSuperConcepts n h c = Some h' \<Longrightarrow> \<forall>x. x \<notin> reach h c \<longrightarrow> h' x = h x"
  "addSuperConceptsEach n h ys = Some h' \<Longrightarrow>
     \<forall>x. x \<notin> (\<Union>y\<in>set ys. reach h y) \<longrightarrow> h' x = h x"
proof (induction n h c and n h ys arbitrary: h' and h'
       rule: addSuperConcepts_addSuperConceptsEach.induct)
  case (1 h c)
  then show ?case by simp
next
  case (2 n h c)
  from 2(2) have e: "addSuperConceptsEach n (visited h c) (children (h c)) = Some h'"
    by (simp add: visited_def)
  from visited_frame [of h c] have l: "sameLinks h (visited h c)" by simp
  note ih = 2(1) [unfolded visited_def [symmetric], OF e, unfolded sameLinks_reach [OF l]]
  show ?case
  proof (intro allI impI)
    fix x assume x: "x \<notin> reach h c"
    then have "x \<noteq> c" using reach_self by blast
    moreover have "x \<notin> (\<Union>y\<in>set (children (h c)). reach h y)"
      using x reach_child by blast
    ultimately show "h' x = h x"
      using ih l by (simp add: visited_other sameLinks_children)
  qed
next
  case (3 n h)
  then show ?case by simp
next
  case (4 n h child rest)
  from 4(3) obtain h1 where h1: "addSuperConcepts n h child = Some h1"
    by (auto split: option.splits)
  from 4(3) h1 have rest: "addSuperConceptsEach n h1 rest = Some h'" by simp
  from addSuperConcepts_frame(1) [OF h1] have l: "sameLinks h h1" by simp
  note a = 4(1) [OF h1]
  note b = 4(2) [OF h1 rest, unfolded sameLinks_reach [OF l]]
  show ?case
  proof (intro allI impI)
    fix x assume "x \<notin> (\<Union>y\<in>set (child # rest). reach h y)"
    then have x1: "x \<notin> reach h child" and x2: "x \<notin> (\<Union>y\<in>set rest. reach h y)" by auto
    from b x2 have "h' x = h1 x" by blast
    also from a x1 have "\<dots> = h x" by blast
    finally show "h' x = h x" .
  qed
qed

lemma addSuperConcepts_sound:
  "addSuperConcepts n h c = Some h' \<Longrightarrow> supersSound h \<Longrightarrow> supersSound h'"
  "addSuperConceptsEach n h ys = Some h' \<Longrightarrow> supersSound h \<Longrightarrow> supersSound h'"
proof (induction n h c and n h ys arbitrary: h' and h'
       rule: addSuperConcepts_addSuperConceptsEach.induct)
  case (1 h c)
  then show ?case by simp
next
  case (2 n h c)
  from 2(2) have e: "addSuperConceptsEach n (visited h c) (children (h c)) = Some h'"
    by (simp add: visited_def)
  from 2(3) have "supersSound (visited h c)" by (rule visited_sound)
  from 2(1) [unfolded visited_def [symmetric], OF e this] show ?case .
next
  case (3 n h)
  then show ?case by simp
next
  case (4 n h child rest)
  from 4(3) obtain h1 where h1: "addSuperConcepts n h child = Some h1"
    by (auto split: option.splits)
  from 4(3) h1 have rest: "addSuperConceptsEach n h1 rest = Some h'" by simp
  from 4(2) [OF h1 rest 4(1) [OF h1 4(4)]] show ?case .
qed

lemma coveredFits_cong: "h' x = h x \<Longrightarrow> coveredFits h' x = coveredFits h x"
  by (simp add: coveredFits_def)

lemma addSuperConcepts_covered:
  "addSuperConcepts n h c = Some h' \<Longrightarrow>
     (\<forall>x. coveredFits h x \<longrightarrow> coveredFits h' x) \<and> (\<forall>x\<in>reach h c. coveredFits h' x)"
  "addSuperConceptsEach n h ys = Some h' \<Longrightarrow>
     (\<forall>x. coveredFits h x \<longrightarrow> coveredFits h' x)
     \<and> (\<forall>y\<in>set ys. \<forall>x\<in>reach h y. coveredFits h' x)"
proof (induction n h c and n h ys arbitrary: h' and h'
       rule: addSuperConcepts_addSuperConceptsEach.induct)
  case (1 h c)
  then show ?case by simp
next
  case (2 n h c)
  from 2(2) have e: "addSuperConceptsEach n (visited h c) (children (h c)) = Some h'"
    by (simp add: visited_def)
  from visited_frame [of h c] have l: "sameLinks h (visited h c)" by simp
  note ih = 2(1) [unfolded visited_def [symmetric], OF e, unfolded sameLinks_reach [OF l]]
  have keep: "coveredFits h x \<Longrightarrow> coveredFits (visited h c) x" for x
    using visited_covered [of h c]
    by (cases "x = c") (simp_all add: coveredFits_def visited_other)
  show ?case
  proof (intro conjI allI impI ballI)
    fix x assume "coveredFits h x"
    then show "coveredFits h' x" using keep ih by blast
  next
    fix x assume "x \<in> reach h c"
    then consider "x = c" | y where "y \<in> set (children (h c))" "x \<in> reach h y"
      using reach_cases by blast
    then show "coveredFits h' x"
    proof cases
      case 1
      with visited_covered [of h c] ih show ?thesis by blast
    next
      case 2
      with ih l show ?thesis by (simp add: sameLinks_children)
    qed
  qed
next
  case (3 n h)
  then show ?case by simp
next
  case (4 n h child rest)
  from 4(3) obtain h1 where h1: "addSuperConcepts n h child = Some h1"
    by (auto split: option.splits)
  from 4(3) h1 have rest: "addSuperConceptsEach n h1 rest = Some h'" by simp
  from addSuperConcepts_frame(1) [OF h1] have l: "sameLinks h h1" by simp
  note a = 4(1) [OF h1]
  note b = 4(2) [OF h1 rest, unfolded sameLinks_reach [OF l]]
  from a b show ?case by auto
qed

lemma addSuperConcepts_depth:
  "addSuperConcepts n h c = Some h' \<Longrightarrow> \<forall>k x. (c, x) \<in> (childRel h) ^^ k \<longrightarrow> k < n"
  "addSuperConceptsEach n h ys = Some h' \<Longrightarrow>
     \<forall>y\<in>set ys. \<forall>k x. (y, x) \<in> (childRel h) ^^ k \<longrightarrow> k < n"
proof (induction n h c and n h ys arbitrary: h' and h'
       rule: addSuperConcepts_addSuperConceptsEach.induct)
  case (1 h c)
  then show ?case by simp
next
  case (2 n h c)
  from 2(2) have e: "addSuperConceptsEach n (visited h c) (children (h c)) = Some h'"
    by (simp add: visited_def)
  from visited_frame [of h c] have l: "sameLinks h (visited h c)" by simp
  note ih = 2(1) [unfolded visited_def [symmetric], OF e, unfolded sameLinks_childRel [OF l]]
  show ?case
  proof (intro allI impI)
    fix k x assume p: "(c, x) \<in> (childRel h) ^^ k"
    show "k < Suc n"
    proof (cases k)
      case 0
      then show ?thesis by simp
    next
      case (Suc k')
      with p obtain y where "(c, y) \<in> childRel h" "(y, x) \<in> (childRel h) ^^ k'"
        by (metis relpow_Suc_D2)
      then have "y \<in> set (children (visited h c c))" "(y, x) \<in> (childRel h) ^^ k'"
        using l by (simp_all add: childRel_def sameLinks_children)
      with ih l have "k' < n" by (simp add: sameLinks_children) blast
      with Suc show ?thesis by simp
    qed
  qed
next
  case (3 n h)
  then show ?case by simp
next
  case (4 n h child rest)
  from 4(3) obtain h1 where h1: "addSuperConcepts n h child = Some h1"
    by (auto split: option.splits)
  from 4(3) h1 have rest: "addSuperConceptsEach n h1 rest = Some h'" by simp
  from addSuperConcepts_frame(1) [OF h1] have l: "sameLinks h h1" by simp
  note a = 4(1) [OF h1]
  note b = 4(2) [OF h1 rest, unfolded sameLinks_childRel [OF l]]
  from a b show ?case by simp
qed

text \<open>A heap with bounded chains of child links has no cycle.\<close>

lemma cycle_relpow:
  assumes "(c, c) \<in> R ^^ m"
  shows "(c, c) \<in> R ^^ (m * j)"
proof (induction j)
  case 0
  show ?case by simp
next
  case (Suc j)
  have "(c, c) \<in> R ^^ (m * j) O R ^^ m" using Suc assms by blast
  then have "(c, c) \<in> R ^^ (m * j + m)" by (simp add: relpow_add)
  then show ?case by (simp add: add.commute)
qed

lemma bounded_acyclic:
  assumes "\<forall>k x. (c, x) \<in> R ^^ k \<longrightarrow> k < n"
  shows "(c, c) \<notin> R\<^sup>+"
proof
  assume "(c, c) \<in> R\<^sup>+"
  then obtain m where m: "0 < m" "(c, c) \<in> R ^^ m" by (auto simp: trancl_power)
  from cycle_relpow [OF m(2), of n] assms have "m * n < n" by blast
  with m(1) show False by (cases m) simp_all
qed

lemma child_not_above:
  assumes "(c, c) \<notin> (childRel h)\<^sup>+" "y \<in> set (children (h c))"
  shows "c \<notin> reach h y"
proof
  assume "c \<in> reach h y"
  then have "(y, c) \<in> (childRel h)\<^sup>*" by (simp add: reach_def)
  moreover from assms(2) have "(c, y) \<in> childRel h" by (simp add: childRel_def)
  ultimately have "(c, c) \<in> (childRel h)\<^sup>+" by (rule rtrancl_into_trancl2 [rotated])
  with assms(1) show False by blast
qed

lemma edgeFits_mono:
  assumes "edgeFits h p y" "h' p = h p" "moreSupers h h'"
  shows "edgeFits h' p y"
  using assms unfolding edgeFits_def moreSupers_def by auto

text \<open>A visit of a concept takes over the super concepts of a parent that is not below it.\<close>

lemma addSuperConcepts_establishes:
  assumes run: "addSuperConcepts n h y = Some h'"
    and p: "p \<in> set (parent (h y))" "p \<notin> reach h y"
  shows "edgeFits h' p y"
proof -
  from run obtain m where n: "n = Suc m" by (cases n) auto
  from run n have e: "addSuperConceptsEach m (visited h y) (children (h y)) = Some h'"
    by (simp add: visited_def)
  from p(2) have py: "p \<noteq> y" using reach_self by blast
  from visited_takes [of p h y] p(1) py
  have "insert p (set (allSuperConcepts (h p))) \<subseteq> set (allSuperConcepts (visited h y y))"
    by blast
  moreover from addSuperConcepts_frame(2) [OF e] have "moreSupers (visited h y) h'" by simp
  ultimately have "insert p (set (allSuperConcepts (h p))) \<subseteq> set (allSuperConcepts (h' y))"
    unfolding moreSupers_def by blast
  moreover from addSuperConcepts_outside(1) [OF run] p(2) have "h' p = h p" by blast
  ultimately show ?thesis by (simp add: edgeFits_def)
qed

lemma addSuperConcepts_edges:
  "addSuperConcepts n h c = Some h' \<Longrightarrow>
     \<forall>p y. y \<in> set (children (h p)) \<and> p \<in> set (parent (h y))
            \<and> (edgeFits h p y \<or> p \<in> reach h c) \<longrightarrow> edgeFits h' p y"
  "addSuperConceptsEach n h ys = Some h' \<Longrightarrow>
     \<forall>p y. y \<in> set (children (h p)) \<and> p \<in> set (parent (h y))
            \<and> (edgeFits h p y \<or> p \<in> (\<Union>z\<in>set ys. reach h z)
                \<or> (y \<in> set ys \<and> p \<notin> (\<Union>z\<in>set ys. reach h z)))
            \<longrightarrow> edgeFits h' p y"
proof (induction n h c and n h ys arbitrary: h' and h'
       rule: addSuperConcepts_addSuperConceptsEach.induct)
  case (1 h c)
  then show ?case by simp
next
  case (2 n h c)
  from 2(2) have e: "addSuperConceptsEach n (visited h c) (children (h c)) = Some h'"
    by (simp add: visited_def)
  from visited_frame [of h c] have l: "sameLinks h (visited h c)"
    and ms: "moreSupers h (visited h c)" by simp_all
  note ih = 2(1) [unfolded visited_def [symmetric], OF e, unfolded sameLinks_reach [OF l]
      sameLinks_children [OF l] sameLinks_parent [OF l]]
  from addSuperConcepts_depth(1) [OF 2(2)] have "(c, c) \<notin> (childRel h)\<^sup>+"
    by (rule bounded_acyclic)
  then have acyc: "c \<notin> (\<Union>z\<in>set (children (h c)). reach h z)"
    using child_not_above by blast
  show ?case
  proof (intro allI impI)
    fix p y
    assume a: "y \<in> set (children (h p)) \<and> p \<in> set (parent (h y))
            \<and> (edgeFits h p y \<or> p \<in> reach h c)"
    then have edge: "y \<in> set (children (h p))" "p \<in> set (parent (h y))" by simp_all
    show "edgeFits h' p y"
    proof (cases "p \<in> reach h c")
      case True
      then consider "p = c" | z where "z \<in> set (children (h c))" "p \<in> reach h z"
        using reach_cases by blast
      then show ?thesis
      proof cases
        case 1
        with edge acyc have "y \<in> set (children (h c)) \<and> p \<notin> (\<Union>z\<in>set (children (h c)). reach h z)"
          by simp
        with ih edge show ?thesis by blast
      next
        case 2
        then have "p \<in> (\<Union>z\<in>set (children (h c)). reach h z)" by blast
        with ih edge show ?thesis by blast
      qed
    next
      case False
      with a have f: "edgeFits h p y" by blast
      from False have "p \<noteq> c" using reach_self by blast
      then have "visited h c p = h p" by (rule visited_other)
      with f ms have "edgeFits (visited h c) p y" using edgeFits_mono by blast
      with ih edge show ?thesis by blast
    qed
  qed
next
  case (3 n h)
  then show ?case by simp
next
  case (4 n h child rest)
  from 4(3) obtain h1 where h1: "addSuperConcepts n h child = Some h1"
    by (auto split: option.splits)
  from 4(3) h1 have rest: "addSuperConceptsEach n h1 rest = Some h'" by simp
  from addSuperConcepts_frame(1) [OF h1] have l: "sameLinks h h1" by simp
  note a = 4(1) [OF h1]
  note b = 4(2) [OF h1 rest, unfolded sameLinks_reach [OF l] sameLinks_children [OF l]
      sameLinks_parent [OF l]]
  show ?case
  proof (intro allI impI)
    fix p y
    assume c: "y \<in> set (children (h p)) \<and> p \<in> set (parent (h y))
            \<and> (edgeFits h p y \<or> p \<in> (\<Union>z\<in>set (child # rest). reach h z)
                \<or> (y \<in> set (child # rest) \<and> p \<notin> (\<Union>z\<in>set (child # rest). reach h z)))"
    then have edge: "y \<in> set (children (h p))" "p \<in> set (parent (h y))" by simp_all
    from c consider "edgeFits h p y \<or> p \<in> reach h child"
      | "p \<in> (\<Union>z\<in>set rest. reach h z)"
      | "y = child" "p \<notin> reach h child" "p \<notin> (\<Union>z\<in>set rest. reach h z)"
      | "y \<in> set rest" "p \<notin> (\<Union>z\<in>set rest. reach h z)"
      by auto
    then show "edgeFits h' p y"
    proof cases
      case 1
      with a edge have "edgeFits h1 p y" by blast
      with b edge show ?thesis by blast
    next
      case 2
      with b edge show ?thesis by blast
    next
      case 3
      from addSuperConcepts_establishes [OF h1, of p] edge(2) 3(1,2)
      have "edgeFits h1 p y" by simp
      with b edge show ?thesis by blast
    next
      case 4
      with b edge show ?thesis by blast
    qed
  qed
qed

lemma linked_parentRel: "linked h \<Longrightarrow> parentRel h = childRel h"
  by (auto simp: linked_def parentRel_def childRel_def)

lemma reach_trancl:
  assumes "A \<in> reach h r" "(A, y) \<in> (childRel h)\<^sup>+"
  shows "y \<in> reach h r"
  using assms by (auto simp: reach_def)

lemma updateConceptTree_parts:
  assumes "updateConceptTree n h r = Some h'"
  obtains h1 where "addSubConcept n h r (Finite 1) = Some h1" "addSuperConcepts n h1 r = Some h'"
  using assms by (auto simp: updateConceptTree_def split: option.splits)

lemma covered_characterised:
  assumes run: "updateConceptTree n h r = Some h'"
    and links: "linked h" and fresh: "unmarked h"
    and A: "A \<in> reach h r" and B: "B \<in> reach h r"
  shows "A \<in> set (covered (h' B))
           \<longleftrightarrow> (A = B \<or> (A, B) \<in> (childRel h)\<^sup>+ \<or> (B, A) \<in> (childRel h)\<^sup>+)"
proof -
  from run obtain h1 where p1: "addSubConcept n h r (Finite 1) = Some h1"
    and p2: "addSuperConcepts n h1 r = Some h'"
    by (rule updateConceptTree_parts)
  from addSubConcept_frame(1) [OF p1] have l1: "sameLinks h h1" and ss1: "sameSupers h h1"
    by simp_all
  from addSuperConcepts_frame(1) [OF p2] have l2: "sameLinks h1 h'" and sb2: "sameSubs h1 h'"
    by simp_all
  note r1 = sameLinks_reach [OF l1] and c1 = sameLinks_childRel [OF l1]
  from fresh have "subsSound h" by (simp add: subsSound_def unmarked_def)
  with p1 have "subsSound h1" by (rule addSubConcept_sound(1))
  then have "set (allSubConcepts (h1 B)) \<subseteq> descendants h B"
    by (simp add: subsSound_def sameLinks_descendants [OF l1])
  moreover from addSubConcept_complete(1) [OF p1] B
  have "descendants h B \<subseteq> set (allSubConcepts (h1 B))" by blast
  ultimately have "set (allSubConcepts (h1 B)) = descendants h B" by blast
  with sb2 have subs: "set (allSubConcepts (h' B)) = descendants h B"
    by (simp add: sameSubs_def)
  from fresh ss1 have "supersSound h1"
    by (simp add: supersSound_def unmarked_def sameSupers_def)
  with p2 have "supersSound h'" by (rule addSuperConcepts_sound(1))
  moreover have "parentRel h' = childRel h"
    using links l1 l2 by (simp add: sameLinks_parentRel linked_parentRel)
  ultimately have sound: "\<forall>a\<in>set (allSuperConcepts (h' B)). (a, B) \<in> (childRel h)\<^sup>+"
    by (simp add: supersSound_def)
  from links l1 have links1: "linked h1" by (rule sameLinks_linked [rotated])
  have edge: "edgeFits h' p y" if "(p, y) \<in> childRel h" "p \<in> reach h r" for p y
  proof -
    from that(1) have "y \<in> set (children (h1 p))"
      by (simp add: childRel_def sameLinks_children [OF l1])
    moreover from this links1 have "p \<in> set (parent (h1 y))" by (simp add: linked_def)
    moreover from that(2) have "p \<in> reach h1 r" by (simp add: r1)
    ultimately show ?thesis using addSuperConcepts_edges(1) [OF p2] by blast
  qed
  have complete: "A \<in> set (allSuperConcepts (h' y))" if "(A, y) \<in> (childRel h)\<^sup>+" for y
    using that
  proof (induction rule: trancl_induct)
    case (base y)
    from edge [OF base A] show ?case by (simp add: edgeFits_def)
  next
    case (step y z)
    from A step(1) have "y \<in> reach h r" by (rule reach_trancl)
    from edge [OF step(2) this] step(3) show ?case by (auto simp: edgeFits_def)
  qed
  from addSuperConcepts_covered(1) [OF p2] B have "coveredFits h' B" by (simp add: r1)
  then have "set (covered (h' B))
      = set (allSuperConcepts (h' B)) \<union> set (allSubConcepts (h' B)) \<union> {B}"
    by (simp add: coveredFits_def union3_def)
  then have "A \<in> set (covered (h' B))
      \<longleftrightarrow> A \<in> set (allSuperConcepts (h' B)) \<or> A \<in> descendants h B \<or> A = B"
    by (auto simp: subs)
  moreover have "A \<in> set (allSuperConcepts (h' B)) \<longleftrightarrow> (A, B) \<in> (childRel h)\<^sup>+"
    using sound complete by blast
  moreover have "A \<in> descendants h B \<longleftrightarrow> (B, A) \<in> (childRel h)\<^sup>+"
    by (simp add: descendants_def)
  ultimately show ?thesis by blast
qed

lemma linkConcepts_linked: "linked h \<Longrightarrow> linked (linkConcepts h p c)"
  unfolding linked_def linkConcepts_def Let_def by auto

lemma linkConcepts_marks:
  "allSubConcepts (linkConcepts h p c x) = allSubConcepts (h x)
   \<and> allSuperConcepts (linkConcepts h p c x) = allSuperConcepts (h x)
   \<and> level (linkConcepts h p c x) = level (h x)
   \<and> basicLevel (linkConcepts h p c x) = basicLevel (h x)"
  by (simp add: linkConcepts_def Let_def)

lemma linkConcepts_pristine: "pristine h \<Longrightarrow> pristine (linkConcepts h p c)"
  by (simp add: pristine_def linkConcepts_linked unmarked_def unscored_def linkConcepts_marks)

lemma linkConcepts_unused:
  "unusedFrom h free \<Longrightarrow> p < free \<Longrightarrow> c < free \<Longrightarrow> unusedFrom (linkConcepts h p c) free"
  by (auto simp: unusedFrom_def linkConcepts_def Let_def)

lemma allocate_pristine:
  assumes "pristine h" "unusedFrom h free"
  shows "pristine (h(free := getConceptModel i k))"
    and "unusedFrom (h(free := getConceptModel i k)) (Suc free)"
    and "unusedFrom (h(free := getConceptModel i k)) free"
proof -
  from assms(2) have e: "children (h free) = []" "parent (h free) = []"
    by (simp_all add: unusedFrom_def)
  from assms(1) have l: "linked h" by (simp add: pristine_def)
  have "free \<notin> set (children (h p))" for p
    using l e(2) by (simp add: linked_def)
  moreover have "free \<notin> set (parent (h c))" for c
    using l e(1) by (metis empty_iff empty_set linked_def)
  ultimately have "linked (h(free := getConceptModel i k))"
    using l by (auto simp: linked_def getConceptModel_def)
  then show "pristine (h(free := getConceptModel i k))"
    using assms(1) by (simp add: pristine_def unmarked_def unscored_def getConceptModel_def)
  show "unusedFrom (h(free := getConceptModel i k)) (Suc free)"
    using assms(2) by (simp add: unusedFrom_def)
  show "unusedFrom (h(free := getConceptModel i k)) free"
    using assms(2) by (simp add: unusedFrom_def getConceptModel_def)
qed

lemma emptyHeap_pristine: "pristine emptyHeap" "unusedFrom emptyHeap 0"
  by (simp_all add: pristine_def linked_def unmarked_def unscored_def unusedFrom_def
      emptyHeap_def getConceptModel_def)

lemma ensureConcept_inv:
  assumes "instInv st"
  shows "instInv (ensureConcept st cid)"
    and "\<exists>r. map_of (createdConcepts (ensureConcept st cid)) cid = Some r"
proof -
  from assms have p: "pristine (nodes st)" and u: "unusedFrom (nodes st) (nextRef st)"
    and d: "\<forall>i r. map_of (createdConcepts st) i = Some r \<longrightarrow> r < nextRef st"
    by (simp_all add: instInv_def)
  show "instInv (ensureConcept st cid)"
  proof (cases "map_of (createdConcepts st) cid")
    case (Some r)
    with assms show ?thesis by (simp add: ensureConcept_def)
  next
    case None
    from allocate_pristine(1,2) [OF p u, of cid 0] d None show ?thesis
      by (auto simp: ensureConcept_def instInv_def update_conv' less_Suc_eq)
  qed
  show "\<exists>r. map_of (createdConcepts (ensureConcept st cid)) cid = Some r"
    by (cases "map_of (createdConcepts st) cid") (simp_all add: ensureConcept_def update_conv')
qed

lemma instanceTreeStep_inv:
  assumes "instInv st"
  shows "instInv (instanceTreeStep st b)"
proof (cases "cb_parent b")
  case None
  with assms show ?thesis by (simp add: instanceTreeStep_def Let_def ensureConcept_inv(1))
next
  case (Some pid)
  let ?st1 = "ensureConcept st (cb_concept b)"
  let ?st2 = "ensureConcept ?st1 pid"
  from assms have i2: "instInv ?st2" by (intro ensureConcept_inv(1))
  show ?thesis
  proof (cases "map_of (createdConcepts ?st2) pid")
    case None
    with Some i2 show ?thesis by (simp add: instanceTreeStep_def Let_def)
  next
    case p: (Some parentNode)
    show ?thesis
    proof (cases "map_of (createdConcepts ?st2) (cb_concept b)")
      case None
      with Some p i2 show ?thesis by (simp add: instanceTreeStep_def Let_def)
    next
      case c: (Some node)
      from i2 p c have lt: "parentNode < nextRef ?st2" "node < nextRef ?st2"
        by (simp_all add: instInv_def)
      from i2 have "pristine (nodes ?st2)" "unusedFrom (nodes ?st2) (nextRef ?st2)"
        and d: "\<forall>i r. map_of (createdConcepts ?st2) i = Some r \<longrightarrow> r < nextRef ?st2"
        by (simp_all add: instInv_def)
      then have "pristine (linkConcepts (nodes ?st2) parentNode node)"
        "unusedFrom (linkConcepts (nodes ?st2) parentNode node) (nextRef ?st2)"
        using lt by (simp_all add: linkConcepts_pristine linkConcepts_unused)
      with d have "instInv (?st2\<lparr>nodes := linkConcepts (nodes ?st2) parentNode node\<rparr>)"
        by (simp add: instInv_def)
      with Some p c show ?thesis by (simp add: instanceTreeStep_def Let_def)
    qed
  qed
qed

lemma instInv_foldl: "instInv st \<Longrightarrow> instInv (foldl instanceTreeStep st bs)"
  by (induction bs arbitrary: st) (simp_all add: instanceTreeStep_inv)

lemma instInv_initial: "instInv \<lparr>nodes = emptyHeap, nextRef = 0, createdConcepts = []\<rparr>"
  by (simp add: instInv_def emptyHeap_pristine)

lemma foldl_linkConcepts_pristine:
  "pristine h \<Longrightarrow> pristine (foldl (\<lambda>h c. linkConcepts h t c) h cs)"
  by (induction cs arbitrary: h) (simp_all add: linkConcepts_pristine)

lemma getRootOfConceptsTree_pristine:
  assumes "instInv st"
  shows "pristine (fst (getRootOfConceptsTree st))"
proof -
  from assms have p: "pristine (nodes st)" and u: "unusedFrom (nodes st) (nextRef st)"
    by (simp_all add: instInv_def)
  from allocate_pristine(1) [OF p u] show ?thesis
    by (simp add: getRootOfConceptsTree_def Let_def foldl_linkConcepts_pristine p)
qed

lemma getInstanceConceptsTree_built:
  assumes "getInstanceConceptsTree n bs = Inr (h', r)"
  shows "\<exists>h. pristine h \<and> updateConceptTree n h r = Some h'"
proof -
  let ?st = "foldl instanceTreeStep \<lparr>nodes = emptyHeap, nextRef = 0, createdConcepts = []\<rparr> bs"
  have "instInv ?st" using instInv_initial by (rule instInv_foldl)
  then have "pristine (fst (getRootOfConceptsTree ?st))" by (rule getRootOfConceptsTree_pristine)
  moreover from assms have "updateConceptTree n (fst (getRootOfConceptsTree ?st)) r = Some h'"
    by (auto simp: getInstanceConceptsTree_def Let_def split: option.splits)
  ultimately show ?thesis by blast
qed

text \<open>The class builder: \<open>getConceptTree\<close> allocates and links one concept per class met.\<close>

lemma addConceptEach_Cons:
  "addConceptEach n classes (h, free) conceptModel (childClass # rest) =
     (if childClass \<notin> set PRIMITIVE_TYPE
      then (case addConcept n classes
                   (linkConcepts (h(free := getConceptModel childClass
                                              (classCount classes childClass)))
                      conceptModel free, Suc free) childClass free of
              None \<Rightarrow> None
            | Some st1 \<Rightarrow> addConceptEach n classes st1 conceptModel rest)
      else addConceptEach n classes (h, free) conceptModel rest)"
  by (simp add: linkConcepts_def Let_def)

lemma addConceptEach_pristine:
  assumes A: "\<And>st classModel conceptModel st'.
      addConcept n classes st classModel conceptModel = Some st' \<Longrightarrow>
      pristine (fst st) \<Longrightarrow> unusedFrom (fst st) (snd st) \<Longrightarrow> conceptModel < snd st \<Longrightarrow>
      pristine (fst st') \<and> unusedFrom (fst st') (snd st') \<and> snd st \<le> snd st'"
  shows "addConceptEach n classes st conceptModel cs = Some st' \<Longrightarrow>
     pristine (fst st) \<Longrightarrow> unusedFrom (fst st) (snd st) \<Longrightarrow> conceptModel < snd st \<Longrightarrow>
     pristine (fst st') \<and> unusedFrom (fst st') (snd st') \<and> snd st \<le> snd st'"
proof (induction cs arbitrary: st)
  case Nil
  then show ?case by simp
next
  case (Cons childClass rest)
  obtain h free where st: "st = (h, free)" by (cases st)
  show ?case
  proof (cases "childClass \<in> set PRIMITIVE_TYPE")
    case True
    with Cons.prems(1) have "addConceptEach n classes st conceptModel rest = Some st'"
      by (simp add: st addConceptEach_Cons)
    from Cons.IH [OF this Cons.prems(2,3,4)] show ?thesis .
  next
    case False
    let ?h1 = "h(free := getConceptModel childClass (classCount classes childClass))"
    let ?h3 = "linkConcepts ?h1 conceptModel free"
    from Cons.prems(2,3,4) have p: "pristine h" and u: "unusedFrom h free"
      and lt: "conceptModel < free" by (simp_all add: st)
    from allocate_pristine [OF p u] have p1: "pristine ?h1" and u1: "unusedFrom ?h1 (Suc free)"
      by simp_all
    from p1 have p3: "pristine ?h3" by (rule linkConcepts_pristine)
    from u1 lt have u3: "unusedFrom ?h3 (Suc free)" by (intro linkConcepts_unused) simp_all
    from Cons.prems(1) False obtain st1 where
      s1: "addConcept n classes (?h3, Suc free) childClass free = Some st1"
      and s2: "addConceptEach n classes st1 conceptModel rest = Some st'"
      unfolding st addConceptEach_Cons by (auto split: option.splits)
    have a: "pristine (fst st1) \<and> unusedFrom (fst st1) (snd st1) \<and> Suc free \<le> snd st1"
      using A [OF s1] p3 u3 by simp
    then have lt1: "conceptModel < snd st1" using lt by simp
    from Cons.IH [OF s2 _ _ lt1] a
    have "pristine (fst st') \<and> unusedFrom (fst st') (snd st') \<and> snd st1 \<le> snd st'" by blast
    with a show ?thesis by (simp add: st)
  qed
qed

lemma addConcept_pristine:
  "addConcept n classes st classModel conceptModel = Some st' \<Longrightarrow>
     pristine (fst st) \<Longrightarrow> unusedFrom (fst st) (snd st) \<Longrightarrow> conceptModel < snd st \<Longrightarrow>
     pristine (fst st') \<and> unusedFrom (fst st') (snd st') \<and> snd st \<le> snd st'"
proof (induction n arbitrary: st classModel conceptModel st')
  case 0
  then show ?case by simp
next
  case (Suc n)
  from Suc.prems(1)
  have "addConceptEach n classes st conceptModel (classChildren classes classModel) = Some st'"
    by simp
  from addConceptEach_pristine [of n classes, OF Suc.IH this Suc.prems(2,3,4)] show ?case .
qed

lemma getConceptTree_pristine:
  assumes "getConceptTree n classes rootClass = Some (h, r)"
  shows "pristine h"
proof -
  let ?h0 = "emptyHeap(0 := getConceptModel rootClass (classCount classes rootClass))"
  from assms obtain free where
    a: "addConcept n classes (?h0, Suc 0) rootClass 0 = Some (h, free)"
    by (auto simp: getConceptTree_def Let_def split: option.splits)
  from allocate_pristine [OF emptyHeap_pristine] have "pristine ?h0" "unusedFrom ?h0 (Suc 0)"
    by simp_all
  with addConcept_pristine [OF a] show ?thesis by simp
qed

lemma getClassTree_built:
  assumes "getClassTree n bs = Inr (res, h', r)"
  shows "\<exists>h. pristine h \<and> updateConceptTree n h r = Some h'"
proof -
  from assms obtain classes rootClass h where "getConceptTree n classes rootClass = Some (h, r)"
    "updateConceptTree n h r = Some h'"
    by (auto simp: getClassTree_def split: sum.splits option.splits prod.splits)
  with getConceptTree_pristine show ?thesis by blast
qed
section \<open>Lemmas about the density pass\<close>

lemma aGlobalDensityOf_update [simp]:
  "aGlobalDensityOf (x\<lparr>aGlobalDensity := v\<rparr>) = aGlobalDensityOf x"
  by (simp add: aGlobalDensityOf_def)

lemma aGlobalDensityOf_nonneg: "\<exists>q. aGlobalDensityOf x = Finite q \<and> 0 \<le> q"
  by (simp add: aGlobalDensityOf_def of_count_def WEIGHT_SUBCLASSES_def WEIGHT_INSTANCES_def
      WEIGHT_PROPERTIES_def)

lemma aGlobalDensityLoop_char:
  "aGlobalDensityLoop cs (h, m) =
     (\<lambda>c. if c \<in> set cs then (h c)\<lparr>aGlobalDensity := aGlobalDensityOf (h c)\<rparr> else h c,
      foldl (\<lambda>m c. if jgt (aGlobalDensityOf (h c)) m then aGlobalDensityOf (h c) else m) m cs)"
proof (induction cs arbitrary: h m)
  case Nil
  show ?case by simp
next
  case (Cons c cs)
  let ?h1 = "h(c := (h c)\<lparr>aGlobalDensity := aGlobalDensityOf (h c)\<rparr>)"
  have a: "\<And>d. aGlobalDensityOf (?h1 d) = aGlobalDensityOf (h d)" by simp
  show ?case
    unfolding aGlobalDensityLoop.simps Cons.IH a
    by (auto simp: fun_eq_iff)
qed


lemma calcLocalDensity_char:
  assumes "calcLocalDensity n h c = Some h'"
  shows "\<exists>v. h' = h(c := (h c)\<lparr>localDensity := v\<rparr>)
           \<and> (globalDensity (h c) = NaN \<longrightarrow> v = NaN)"
  using assms
  by (auto simp: calcLocalDensity_def Let_def split: option.splits)




section \<open>Lemmas about the invariant of the selection loop\<close>



















section \<open>Lemmas about the neighbourhood of a concept\<close>






lemma nearest_distinct:
  assumes "getNearestConceptsKLevel m h k c = Some ys"
  shows "distinct ys \<and> c \<in> set ys"
  using assms
  by (auto simp: getNearestConceptsKLevel_def union3_def split: option.splits)
section \<open>Lemmas about extraction\<close>



lemma concepts_calcScore [simp]: "concepts (calcScoreOfConcepts d) = concepts d"
  by (simp add: calcScoreOfConcepts_def)

lemma concepts_calcNameSimplicity [simp]: "concepts (calcNameSimplicityOfConcepts d) = concepts d"
  by (simp add: calcNameSimplicityOfConcepts_def)

lemma concepts_calcBasicLevel [simp]: "concepts (calcBasicLevelOfConcepts d) = concepts d"
  by (simp add: calcBasicLevelOfConcepts_def Let_def)

lemma concepts_calcNaturalCategoryValue [simp]:
  "concepts (calcNaturalCategoryValueOfConcepts d) = concepts d"
  by (simp add: calcNaturalCategoryValueOfConcepts_def Let_def)

lemma score_swapStep [simp]: "score (sel_store (swapStep s r) c) = score (sel_store s c)"
  by (simp add: swapStep_char)

lemma score_foldl_swapStep [simp]:
  "score (sel_store (foldl swapStep s rs) c) = score (sel_store s c)"
  by (induction rs arbitrary: s) simp_all

lemma score_initialSelection [simp]:
  "score (sel_store (initialSelection h best) c) = score (h c)"
  by (simp add: initialSelection_char)

lemma set_sortBy [simp]: "set (sortBy f xs) = set xs"
  by (simp add: sortBy_def)

lemma distinct_sortBy [simp]: "distinct (sortBy f xs) = distinct xs"
  by (simp add: sortBy_def)

lemma length_sortBy [simp]: "length (sortBy f xs) = length xs"
  by (simp add: sortBy_def)




lemma score_selectKeyConcepts [simp]:
  "score (store (selectKeyConcepts d n) c) = score (store d c)"
  by (simp add: selectKeyConcepts_def Let_def)


section \<open>Lemmas about the class builders\<close>




lemma mergeDuplicate_rest:
  "c_id (mergeDuplicate node b) = c_id node \<and> c_children (mergeDuplicate node b) = c_children node
   \<and> c_parent (mergeDuplicate node b) = c_parent node"
  by (auto simp: mergeDuplicate_def Let_def split: option.splits)


































section \<open>Lemmas about the bounds of the scores\<close>

lemma running_max_notNegative:
  "notNegative m0 \<Longrightarrow> notNegative (foldl (\<lambda>m c. if jgt (f c) m then f c else m) m0 cs)"
proof (induction cs arbitrary: m0)
  case Nil
  then show ?case by simp
next
  case (Cons c cs)
  have "notNegative (if jgt (f c) m0 then f c else m0)"
    using Cons.prems by (cases "f c"; cases m0) (auto simp: notNegative_def jgt_def)
  from Cons.IH [OF this] show ?case by simp
qed

lemma localDensity_bound:
  assumes g: "0 \<le> g" "g \<le> 1" and w: "notNegative maxW" "\<not> jgt (Finite g) maxW"
  shows "nanOrAtMost (3 / 2) (jadd (jdiv (Finite g) maxW) (jmul WEIGHT_GDL (Finite g)))"
proof (cases maxW)
  case (Finite W)
  with w have W: "0 \<le> W" "g \<le> W" by (auto simp: notNegative_def jgt_def)
  show ?thesis
  proof (cases "W = 0")
    case True
    with W g have "g = 0" by simp
    with True Finite show ?thesis by (simp add: nanOrAtMost_def WEIGHT_GDL_def)
  next
    case False
    with W have "0 < W" by simp
    with W(2) have "g / W \<le> 1" by (simp add: divide_le_eq_1)
    moreover have "1 / 2 * g \<le> 1 / 2" using g by simp
    ultimately have "g / W + 1 / 2 * g \<le> 3 / 2" by linarith
    moreover have "jadd (jdiv (Finite g) (Finite W)) (jmul WEIGHT_GDL (Finite g))
        = Finite (g / W + 1 / 2 * g)"
      using False by (simp add: WEIGHT_GDL_def)
    ultimately show ?thesis unfolding Finite nanOrAtMost_def by blast
  qed
next
  case PosInf
  have "jadd (jdiv (Finite g) PosInf) (jmul WEIGHT_GDL (Finite g)) = Finite (1 / 2 * g)"
    by (simp add: WEIGHT_GDL_def)
  moreover have "1 / 2 * g \<le> 3 / 2" using g by simp
  ultimately show ?thesis unfolding PosInf nanOrAtMost_def by blast
next
  case NegInf
  with w show ?thesis by (simp add: notNegative_def)
next
  case NaN
  with w show ?thesis by (simp add: notNegative_def)
qed

lemma density_bound:
  assumes "0 \<le> g" "g \<le> 1" "nanOrAtMost (3 / 2) v"
  shows "nanOrAtMost (14 / 25)
           (jadd (jmul WEIGHT_GLOBAL_DENSITY (Finite g)) (jmul WEIGHT_LOCAL_DENSITY v))"
proof (cases "v = NaN")
  case True
  then show ?thesis by (simp add: nanOrAtMost_def)
next
  case False
  with assms(3) obtain r where r: "v = Finite r" "r \<le> 3 / 2" by (auto simp: nanOrAtMost_def)
  have "8 / 100 * g + 32 / 100 * r \<le> 14 / 25" using assms(2) r(2) by simp
  moreover have "jadd (jmul WEIGHT_GLOBAL_DENSITY (Finite g)) (jmul WEIGHT_LOCAL_DENSITY v)
      = Finite (8 / 100 * g + 32 / 100 * r)"
    by (simp add: r(1) WEIGHT_GLOBAL_DENSITY_def WEIGHT_LOCAL_DENSITY_def)
  ultimately show ?thesis unfolding nanOrAtMost_def by blast
qed

lemma weighted_self:
  assumes "level (h c) = Finite l"
  shows "weightedGlobalDensity h c c = jmul (Finite 1) (globalDensity (h c))"
  by (simp add: weightedGlobalDensity_def assms jsub_def RATIO_DISTANCE_def)

lemma calcLocalDensity_bound:
  assumes run: "calcLocalDensity n h c = Some h'"
    and lev: "level (h c) = Finite l"
    and g: "globalDensity (h c) = NaN \<or> (\<exists>g. globalDensity (h c) = Finite g \<and> 0 \<le> g \<and> g \<le> 1)"
  shows "\<exists>v. h' = h(c := (h c)\<lparr>localDensity := v\<rparr>) \<and> nanOrAtMost (3 / 2) v
           \<and> (globalDensity (h c) = NaN \<longrightarrow> v = NaN)"
proof -
  from run obtain ys where ys: "getNearestConceptsKLevel n h (Finite 2) c = Some ys"
    by (auto simp: calcLocalDensity_def split: option.splits)
  let ?maxW = "foldl (\<lambda>m y. if jgt (weightedGlobalDensity h c y) m
                             then weightedGlobalDensity h c y else m) (Finite 0) ys"
  let ?v = "jadd (jdiv (globalDensity (h c)) ?maxW) (jmul WEIGHT_GDL (globalDensity (h c)))"
  from run ys have h': "h' = h(c := (h c)\<lparr>localDensity := ?v\<rparr>)"
    by (simp add: calcLocalDensity_def Let_def)
  from nearest_distinct [OF ys] have c: "c \<in> set ys" by simp
  have nn: "notNegative ?maxW"
    by (rule running_max_notNegative) (simp add: notNegative_def)
  have up: "\<not> jgt (weightedGlobalDensity h c c) ?maxW"
    using running_max_upper [of ys "weightedGlobalDensity h c" "Finite 0"] c by blast
  have "nanOrAtMost (3 / 2) ?v \<and> (globalDensity (h c) = NaN \<longrightarrow> ?v = NaN)"
  proof (cases "globalDensity (h c) = NaN")
    case True
    then show ?thesis by (simp add: nanOrAtMost_def)
  next
    case False
    with g obtain gd where gd: "globalDensity (h c) = Finite gd" "0 \<le> gd" "gd \<le> 1" by blast
    from up have "\<not> jgt (Finite gd) ?maxW"
      by (simp add: weighted_self [of h c l, OF lev] gd(1))
    from localDensity_bound [OF gd(2,3) nn this] gd(1) show ?thesis by simp
  qed
  with h' show ?thesis by blast
qed

lemma globalDensity_unit:
  assumes "0 \<le> a" "a \<le> M"
  shows "jdiv (Finite a) (Finite M) = NaN
         \<or> (\<exists>g. jdiv (Finite a) (Finite M) = Finite g \<and> 0 \<le> g \<and> g \<le> 1)"
proof (cases "M = 0")
  case True
  with assms have "a = 0" by simp
  with True show ?thesis by simp
next
  case False
  with assms have "0 < M" by simp
  with assms have "0 \<le> a / M" "a / M \<le> 1" by (simp_all add: divide_le_eq_1)
  with False show ?thesis by simp
qed

lemma densityLoop_bound:
  assumes "densityLoop n (Finite M) cs h = Some h'"
    and agd: "\<forall>c\<in>set cs. \<exists>a. aGlobalDensity (h c) = Finite a \<and> 0 \<le> a \<and> a \<le> M"
    and lev: "\<forall>c\<in>set cs. \<exists>l. level (h c) = Finite l"
  shows "(\<forall>c\<in>set cs. nanOrAtMost (14 / 25) (density (h' c)))
       \<and> (\<forall>x. level (h' x) = level (h x) \<and> basicLevel (h' x) = basicLevel (h x)
              \<and> ident (h' x) = ident (h x) \<and> aGlobalDensity (h' x) = aGlobalDensity (h x)
              \<and> children (h' x) = children (h x) \<and> parent (h' x) = parent (h x))
       \<and> (\<forall>x. x \<notin> set cs \<longrightarrow> density (h' x) = density (h x))"
  using assms
proof (induction cs arbitrary: h)
  case Nil
  then show ?case by simp
next
  case (Cons c cs)
  let ?h1 = "h(c := (h c)\<lparr>globalDensity := jdiv (aGlobalDensity (h c)) (Finite M)\<rparr>)"
  from Cons.prems(1) obtain h2 where h2: "calcLocalDensity n ?h1 c = Some h2"
    by (auto simp: Let_def split: option.splits)
  from Cons.prems(2) obtain a where a: "aGlobalDensity (h c) = Finite a" "0 \<le> a" "a \<le> M"
    by auto
  from Cons.prems(3) obtain l where l: "level (h c) = Finite l" by auto
  then have l1: "level (?h1 c) = Finite l" by simp
  from globalDensity_unit [OF a(2,3)]
  have g1: "globalDensity (?h1 c) = NaN
      \<or> (\<exists>g. globalDensity (?h1 c) = Finite g \<and> 0 \<le> g \<and> g \<le> 1)"
    by (simp add: a(1))
  from calcLocalDensity_bound [OF h2 l1 g1] obtain v where
    v: "h2 = ?h1(c := (?h1 c)\<lparr>localDensity := v\<rparr>)" "nanOrAtMost (3 / 2) v"
       "globalDensity (?h1 c) = NaN \<longrightarrow> v = NaN"
    by blast
  let ?h3 = "h2(c := (h2 c)\<lparr>density :=
                   jadd (jmul WEIGHT_GLOBAL_DENSITY (globalDensity (h2 c)))
                        (jmul WEIGHT_LOCAL_DENSITY (localDensity (h2 c)))\<rparr>)"
  from Cons.prems(1) h2 have rest: "densityLoop n (Finite M) cs ?h3 = Some h'"
    by (simp add: Let_def)
  have frame: "level (?h3 x) = level (h x) \<and> basicLevel (?h3 x) = basicLevel (h x)
      \<and> ident (?h3 x) = ident (h x) \<and> aGlobalDensity (?h3 x) = aGlobalDensity (h x)
      \<and> children (?h3 x) = children (h x) \<and> parent (?h3 x) = parent (h x)" for x
    by (simp add: v(1))
  have other: "x \<noteq> c \<Longrightarrow> density (?h3 x) = density (h x)" for x
    by (simp add: v(1))
  have here: "nanOrAtMost (14 / 25) (density (?h3 c))"
  proof (cases "globalDensity (?h1 c) = NaN")
    case True
    with v(3) have "density (?h3 c) = NaN" by (simp add: v(1))
    then show ?thesis by (simp add: nanOrAtMost_def)
  next
    case False
    with g1 obtain g where g: "globalDensity (?h1 c) = Finite g" "0 \<le> g" "g \<le> 1" by blast
    have "density (?h3 c)
        = jadd (jmul WEIGHT_GLOBAL_DENSITY (Finite g)) (jmul WEIGHT_LOCAL_DENSITY v)"
      using g(1) by (simp add: v(1))
    with density_bound [OF g(2,3) v(2)] show ?thesis by simp
  qed
  have "\<forall>c\<in>set cs. \<exists>a. aGlobalDensity (?h3 c) = Finite a \<and> 0 \<le> a \<and> a \<le> M"
    using Cons.prems(2) frame by simp
  moreover have "\<forall>c\<in>set cs. \<exists>l. level (?h3 c) = Finite l"
    using Cons.prems(3) frame by simp
  ultimately have IH: "(\<forall>c\<in>set cs. nanOrAtMost (14 / 25) (density (h' c)))
       \<and> (\<forall>x. level (h' x) = level (?h3 x) \<and> basicLevel (h' x) = basicLevel (?h3 x)
              \<and> ident (h' x) = ident (?h3 x) \<and> aGlobalDensity (h' x) = aGlobalDensity (?h3 x)
              \<and> children (h' x) = children (?h3 x) \<and> parent (h' x) = parent (?h3 x))
       \<and> (\<forall>x. x \<notin> set cs \<longrightarrow> density (h' x) = density (?h3 x))"
    by (rule Cons.IH [OF rest])
  show ?case
  proof (intro conjI allI ballI impI)
    fix d assume d: "d \<in> set (c # cs)"
    show "nanOrAtMost (14 / 25) (density (h' d))"
    proof (cases "d \<in> set cs")
      case True
      with IH show ?thesis by blast
    next
      case False
      with d have "d = c" by simp
      with IH False here show ?thesis by simp
    qed
  next
    fix x
    from IH frame [of x]
    show "level (h' x) = level (h x)" "basicLevel (h' x) = basicLevel (h x)"
      "ident (h' x) = ident (h x)" "aGlobalDensity (h' x) = aGlobalDensity (h x)"
      "children (h' x) = children (h x)" "parent (h' x) = parent (h x)"
      by simp_all
  next
    fix x assume "x \<notin> set (c # cs)"
    then have "x \<noteq> c" "x \<notin> set cs" by simp_all
    with IH other [of x] show "density (h' x) = density (h x)" by simp
  qed
qed

section \<open>Lemmas about the scoring passes of a built tree\<close>


lemma chain_step:
  assumes "\<forall>k x. (c, x) \<in> R ^^ k \<longrightarrow> k < Suc n" "(c, y) \<in> R"
  shows "\<forall>k x. (y, x) \<in> R ^^ k \<longrightarrow> k < n"
proof (intro allI impI)
  fix k x assume "(y, x) \<in> R ^^ k"
  with assms(2) have "(c, x) \<in> R ^^ Suc k" by (meson relpow_Suc_I2)
  with assms(1) have "Suc k < Suc n" by blast
  then show "k < n" by simp
qed

lemma addSubConceptsKLevel_returns:
  "\<forall>k x. (c, x) \<in> (childRel h) ^^ k \<longrightarrow> k < n \<Longrightarrow>
     \<exists>ys. addSubConceptsKLevel n h initLevel c k0 = Some ys"
  "\<forall>y\<in>set cs. \<forall>k x. (y, x) \<in> (childRel h) ^^ k \<longrightarrow> k < n \<Longrightarrow>
     \<exists>ys. addSubConceptsKLevelEach n h initLevel k0 cs acc = Some ys"
proof (induction n h initLevel c k0 and n h initLevel k0 cs acc
    rule: addSubConceptsKLevel_addSubConceptsKLevelEach.induct)
  case (1 h initLevel c k)
  from 1 have "(0::nat) < 0" by (metis relpow_0_I)
  then show ?case by simp
next
  case (2 n h initLevel c k)
  show ?case
  proof (cases "jle (jsub (jadd (level (h c)) (Finite 1)) initLevel) k")
    case True
    have "\<forall>y\<in>set (children (h c)). \<forall>j x. (y, x) \<in> (childRel h) ^^ j \<longrightarrow> j < n"
    proof
      fix y assume "y \<in> set (children (h c))"
      then have "(c, y) \<in> childRel h" by (simp add: childRel_def)
      from chain_step [OF "2.prems" this]
      show "\<forall>j x. (y, x) \<in> (childRel h) ^^ j \<longrightarrow> j < n" .
    qed
    from "2.IH" [OF True this] True show ?thesis by simp
  next
    case False
    then show ?thesis by simp
  qed
next
  case (3 n h initLevel k result)
  show ?case by simp
next
  case (4 n h initLevel k subConcept rest result)
  from "4.prems" have a: "\<forall>j x. (subConcept, x) \<in> (childRel h) ^^ j \<longrightarrow> j < n"
    and b: "\<forall>y\<in>set rest. \<forall>j x. (y, x) \<in> (childRel h) ^^ j \<longrightarrow> j < n"
    by simp_all
  from "4.IH"(1) [OF a] obtain subResult where
    s: "addSubConceptsKLevel n h initLevel subConcept k = Some subResult" by blast
  from "4.IH"(2) [OF s b] s show ?case by simp
qed

lemma jlt_level_defined: "jlt (jsub initLevel l) k \<Longrightarrow> l \<noteq> NaN"
  by (cases initLevel; cases l) (auto simp: jsub_def)

lemma addSuperConceptsKLevel_returns:
  "\<forall>k x. (c, x) \<in> (upRel h) ^^ k \<longrightarrow> k < n \<Longrightarrow>
     \<exists>ys. addSuperConceptsKLevel n h initLevel c k0 = Some ys"
  "\<forall>y\<in>set cs. \<forall>k x. (y, x) \<in> (upRel h) ^^ k \<longrightarrow> k < n \<Longrightarrow>
     \<exists>ys. addSuperConceptsKLevelEach n h initLevel k0 cs acc = Some ys"
proof (induction n h initLevel c k0 and n h initLevel k0 cs acc
    rule: addSuperConceptsKLevel_addSuperConceptsKLevelEach.induct)
  case (1 h initLevel c k)
  from 1 have "(0::nat) < 0" by (metis relpow_0_I)
  then show ?case by simp
next
  case (2 n h initLevel c k)
  show ?case
  proof (cases "jlt (jsub initLevel (level (h c))) k")
    case True
    then have lev: "level (h c) \<noteq> NaN" by (rule jlt_level_defined)
    have "\<forall>y\<in>set (parent (h c)). \<forall>j x. (y, x) \<in> (upRel h) ^^ j \<longrightarrow> j < n"
    proof
      fix y assume "y \<in> set (parent (h c))"
      with lev have "(c, y) \<in> upRel h" by (simp add: upRel_def)
      from chain_step [OF "2.prems" this]
      show "\<forall>j x. (y, x) \<in> (upRel h) ^^ j \<longrightarrow> j < n" .
    qed
    from "2.IH" [OF True this] True show ?thesis by simp
  next
    case False
    then show ?thesis by simp
  qed
next
  case (3 n h initLevel k result)
  show ?case by simp
next
  case (4 n h initLevel k superConcept rest result)
  from "4.prems" have a: "\<forall>j x. (superConcept, x) \<in> (upRel h) ^^ j \<longrightarrow> j < n"
    and b: "\<forall>y\<in>set rest. \<forall>j x. (y, x) \<in> (upRel h) ^^ j \<longrightarrow> j < n"
    by simp_all
  from "4.IH"(1) [OF a] obtain superResult where
    s: "addSuperConceptsKLevel n h initLevel superConcept k = Some superResult" by blast
  from "4.IH"(2) [OF s b] s show ?case by simp
qed

lemma getNearestConceptsKLevel_returns:
  assumes "\<forall>k x. (c, x) \<in> (childRel h) ^^ k \<longrightarrow> k < n"
    and "\<forall>k x. (c, x) \<in> (upRel h) ^^ k \<longrightarrow> k < n"
  shows "\<exists>ys. getNearestConceptsKLevel n h k0 c = Some ys"
proof -
  from addSubConceptsKLevel_returns(1) [OF assms(1)] obtain a where
    a: "addSubConceptsKLevel n h (level (h c)) c k0 = Some a" by blast
  from addSuperConceptsKLevel_returns(1) [OF assms(2)] obtain b where
    b: "addSuperConceptsKLevel n h (level (h c)) c k0 = Some b" by blast
  show ?thesis by (simp add: getNearestConceptsKLevel_def a b)
qed

lemma calcLocalDensity_returns:
  assumes "\<forall>k x. (c, x) \<in> (childRel h) ^^ k \<longrightarrow> k < n"
    and "\<forall>k x. (c, x) \<in> (upRel h) ^^ k \<longrightarrow> k < n"
  shows "\<exists>h'. calcLocalDensity n h c = Some h'"
proof -
  from getNearestConceptsKLevel_returns [OF assms] obtain ys where
    "getNearestConceptsKLevel n h (Finite 2) c = Some ys" by blast
  then show ?thesis by (simp add: calcLocalDensity_def Let_def)
qed

lemma upRel_converse:
  assumes "linked h" "(c, x) \<in> (upRel h) ^^ k"
  shows "(x, c) \<in> (childRel h) ^^ k"
  using assms(2)
proof (induction k arbitrary: x)
  case 0
  then show ?case by simp
next
  case (Suc k)
  then obtain z where z: "(c, z) \<in> (upRel h) ^^ k" "(z, x) \<in> upRel h" by auto
  from z(2) have "x \<in> set (parent (h z))" by (simp add: upRel_def)
  with assms(1) have "(x, z) \<in> childRel h" by (simp add: linked_def childRel_def)
  with Suc.IH [OF z(1)] show ?case by (meson relpow_Suc_I2)
qed

lemma childRel_cong: "(\<And>x. children (h' x) = children (h x)) \<Longrightarrow> childRel h' = childRel h"
  by (simp add: childRel_def)

lemma upRel_cong:
  "(\<And>x. parent (h' x) = parent (h x)) \<Longrightarrow> (\<And>x. level (h' x) = level (h x)) \<Longrightarrow>
     upRel h' = upRel h"
  by (simp add: upRel_def)

lemma built_tree:
  assumes "pristine h" "updateConceptTree n h r = Some h'"
  shows "builtTree n h' r"
proof -
  from assms(2) obtain h1 where p1: "addSubConcept n h r (Finite 1) = Some h1"
    and p2: "addSuperConcepts n h1 r = Some h'"
    by (rule updateConceptTree_parts)
  from addSubConcept_frame(1) [OF p1] have l1: "sameLinks h h1" by simp
  from addSuperConcepts_frame(1) [OF p2] have l2: "sameLinks h1 h'" and v2: "sameLevels h1 h'"
    by simp_all
  from l1 l2 have l: "sameLinks h h'" by (rule sameLinks_trans)
  from assms(1) have lk: "linked h" and un: "\<forall>x. level (h x) = NaN \<and> basicLevel (h x) = Finite 0"
    by (simp_all add: pristine_def unscored_def)
  have rc: "reach h' = reach h" and cr: "childRel h' = childRel h"
    using l by (simp_all add: sameLinks_reach sameLinks_childRel)
  have lev: "level (h' x) = level (h1 x)" for x using v2 by (simp add: sameLevels_def)
  from addSubConcept_levels(1) [OF p1]
  have a: "\<forall>x\<in>reach h r. \<exists>l. level (h1 x) = Finite l"
    and b: "\<forall>x. x \<notin> reach h r \<longrightarrow> level (h1 x) = level (h x)"
    by blast+
  from addSubConcept_depth(1) [OF p1]
  have d: "\<forall>k x. (r, x) \<in> (childRel h) ^^ k \<longrightarrow> k < n" .
  show ?thesis
    unfolding builtTree_def rc cr
  proof (intro conjI)
    show "linked h'" using l lk by (rule sameLinks_linked)
    show "\<forall>x. basicLevel (h' x) = Finite 0"
      using un sameLinks_basicLevel [OF l] by simp
    show "\<forall>x\<in>reach h r. \<exists>l. level (h' x) = Finite l" using a lev by simp
    show "\<forall>x. x \<notin> reach h r \<longrightarrow> level (h' x) = NaN" using b un lev by simp
    show "\<forall>k x. (r, x) \<in> (childRel h) ^^ k \<longrightarrow> k < n" by (rule d)
  qed
qed

lemma builtTree_cong:
  assumes "builtTree n h r"
    and "\<And>x. children (h' x) = children (h x)" "\<And>x. parent (h' x) = parent (h x)"
    and "\<And>x. level (h' x) = level (h x)" "\<And>x. basicLevel (h' x) = basicLevel (h x)"
  shows "builtTree n h' r"
proof -
  have cr: "childRel h' = childRel h" using assms(2) by (rule childRel_cong)
  then have rc: "reach h' = reach h" by (simp add: reach_def fun_eq_iff)
  have "linked h'" using assms(1) by (simp add: builtTree_def linked_def assms(2,3))
  with assms(1) show ?thesis
    by (simp add: builtTree_def cr rc assms(4,5))
qed

lemma built_chains:
  assumes "builtTree n h r" "c \<in> reach h r"
  shows "\<forall>k x. (c, x) \<in> (childRel h) ^^ k \<longrightarrow> k < n"
proof (intro allI impI)
  fix k x assume cx: "(c, x) \<in> (childRel h) ^^ k"
  from assms(2) have "(r, c) \<in> (childRel h)\<^sup>*" by (simp add: reach_def)
  then obtain j where "(r, c) \<in> (childRel h) ^^ j" by (auto simp: rtrancl_power)
  with cx have "(r, x) \<in> (childRel h) ^^ (j + k)" by (auto simp: relpow_add)
  moreover from assms(1) have "\<forall>k x. (r, x) \<in> (childRel h) ^^ k \<longrightarrow> k < n"
    unfolding builtTree_def by (elim conjE)
  ultimately have "j + k < n" by blast
  then show "k < n" by simp
qed

lemma built_up_chains:
  assumes "builtTree n h r"
  shows "\<forall>k x. (c, x) \<in> (upRel h) ^^ k \<longrightarrow> k < Suc n"
proof (intro allI impI)
  fix k x assume cx: "(c, x) \<in> (upRel h) ^^ k"
  show "k < Suc n"
  proof (cases k)
    case 0
    then show ?thesis by simp
  next
    case (Suc j)
    with cx obtain z where z: "(c, z) \<in> (upRel h) ^^ j" "(z, x) \<in> upRel h" by auto
    from z(2) have "level (h z) \<noteq> NaN" by (simp add: upRel_def)
    with assms have zr: "z \<in> reach h r" by (auto simp: builtTree_def)
    from assms have "linked h" by (simp add: builtTree_def)
    from upRel_converse [OF this z(1)] have "(z, c) \<in> (childRel h) ^^ j" .
    with built_chains [OF assms zr] have "j < n" by blast
    with Suc show ?thesis by simp
  qed
qed

lemma densityLoop_returns:
  assumes "childRel h = R" "upRel h = U"
    and "\<forall>c\<in>set cs. (\<forall>k x. (c, x) \<in> R ^^ k \<longrightarrow> k < n) \<and> (\<forall>k x. (c, x) \<in> U ^^ k \<longrightarrow> k < n)"
  shows "\<exists>h'. densityLoop n m cs h = Some h'"
  using assms
proof (induction cs arbitrary: h)
  case Nil
  show ?case by simp
next
  case (Cons c cs)
  let ?h1 = "h(c := (h c)\<lparr>globalDensity := jdiv (aGlobalDensity (h c)) m\<rparr>)"
  have r1: "childRel ?h1 = R" using Cons.prems(1) childRel_cong [of ?h1 h] by simp
  have u1: "upRel ?h1 = U" using Cons.prems(2) upRel_cong [of ?h1 h] by simp
  from Cons.prems(3) have "\<forall>k x. (c, x) \<in> (childRel ?h1) ^^ k \<longrightarrow> k < n"
    "\<forall>k x. (c, x) \<in> (upRel ?h1) ^^ k \<longrightarrow> k < n"
    unfolding r1 u1 by simp_all
  from calcLocalDensity_returns [OF this] obtain h2 where
    h2: "calcLocalDensity n ?h1 c = Some h2" by blast
  from calcLocalDensity_char [OF h2] obtain v where
    v: "h2 = ?h1(c := (?h1 c)\<lparr>localDensity := v\<rparr>)" by blast
  let ?h3 = "h2(c := (h2 c)\<lparr>density :=
                   jadd (jmul WEIGHT_GLOBAL_DENSITY (globalDensity (h2 c)))
                        (jmul WEIGHT_LOCAL_DENSITY (localDensity (h2 c)))\<rparr>)"
  have r3: "childRel ?h3 = R" using Cons.prems(1) childRel_cong [of ?h3 h] by (simp add: v)
  have u3: "upRel ?h3 = U" using Cons.prems(2) upRel_cong [of ?h3 h] by (simp add: v)
  from Cons.prems(3) have
    "\<forall>c\<in>set cs. (\<forall>k x. (c, x) \<in> R ^^ k \<longrightarrow> k < n) \<and> (\<forall>k x. (c, x) \<in> U ^^ k \<longrightarrow> k < n)"
    by simp
  from Cons.IH [OF r3 u3 this] obtain h' where "densityLoop n m cs ?h3 = Some h'" by blast
  with h2 show ?case by (simp add: Let_def)
qed

lemma addConceptToList_reach:
  "addConceptToList n h acc c = Some acc' \<Longrightarrow> set acc' \<subseteq> set acc \<union> reach h c"
  "addConceptToListEach n h acc ys = Some acc' \<Longrightarrow>
     set acc' \<subseteq> set acc \<union> (\<Union>y\<in>set ys. reach h y)"
proof (induction n h acc c and n h acc ys arbitrary: acc' and acc'
    rule: addConceptToList_addConceptToListEach.induct)
  case (1 h acc c)
  then show ?case by simp
next
  case (2 n h acc c)
  from "2.prems" have "addConceptToListEach n h (acc @ [c]) (children (h c)) = Some acc'"
    by simp
  from "2.IH" [OF this]
  have "set acc' \<subseteq> set (acc @ [c]) \<union> (\<Union>y\<in>set (children (h c)). reach h y)" .
  moreover have "(\<Union>y\<in>set (children (h c)). reach h y) \<subseteq> reach h c"
    using reach_child [of _ h c] by blast
  moreover have "c \<in> reach h c" by (rule reach_self)
  ultimately show ?case by auto
next
  case (3 n h acc)
  then show ?case by simp
next
  case (4 n h acc child rest)
  from "4.prems" obtain acc1 where a: "addConceptToList n h acc child = Some acc1"
    and b: "addConceptToListEach n h acc1 rest = Some acc'"
    by (auto split: option.splits)
  from "4.IH"(1) [OF a] "4.IH"(2) [OF a b] show ?case by auto
qed

lemma setPropertyCounts_field:
  assumes "\<And>v k. g (v\<lparr>propertyCount := k\<rparr>) = g v"
  shows "g (setPropertyCounts h cs counts x) = g (h x)"
  unfolding setPropertyCounts_def
proof (induction counts arbitrary: h)
  case Nil
  show ?case by simp
next
  case (Cons p counts)
  let ?F = "\<lambda>h1 (i, n). case conceptById h1 cs i of
                            None \<Rightarrow> h1
                          | Some c \<Rightarrow> h1(c := (h1 c)\<lparr>propertyCount := n\<rparr>)"
  have e: "g (?F h p x) = g (h x)"
    by (cases p) (simp add: assms split: option.splits)
  have "g (foldl ?F h (p # counts) x) = g (foldl ?F (?F h p) counts x)" by simp
  also have "\<dots> = g (?F h p x)" by (rule Cons.IH)
  also have "\<dots> = g (h x)" by (rule e)
  finally show ?case .
qed

lemma setPropertyCounts_frame:
  "children (setPropertyCounts h cs counts x) = children (h x)
   \<and> parent (setPropertyCounts h cs counts x) = parent (h x)
   \<and> level (setPropertyCounts h cs counts x) = level (h x)
   \<and> basicLevel (setPropertyCounts h cs counts x) = basicLevel (h x)
   \<and> covered (setPropertyCounts h cs counts x) = covered (h x)"
  by (intro conjI setPropertyCounts_field) simp_all

lemma setConceptTree_built:
  assumes "setConceptTree m d0 h r counts = Some d" "builtTree n h r"
  shows "builtTree n (store d) r \<and> set (concepts d) \<subseteq> reach (store d) r
       \<and> maxAGlobalDensity d = maxAGlobalDensity d0
       \<and> (\<forall>x. covered (store d x) = covered (h x))"
proof -
  from assms(1) obtain cs ps where cs: "addConceptToList m h [] r = Some cs"
    and d: "d = d0\<lparr>store := setPropertyCounts h cs counts, concepts := cs, paths := ps\<rparr>"
    by (auto simp: setConceptTree_def Let_def split: option.splits)
  note f = setPropertyCounts_frame [of h cs counts]
  have b: "builtTree n (store d) r"
    using assms(2) by (rule builtTree_cong) (simp_all add: d f)
  have "childRel (store d) = childRel h"
    by (rule childRel_cong) (simp add: d f)
  then have rc: "reach (store d) = reach h" by (simp add: reach_def fun_eq_iff)
  from addConceptToList_reach(1) [OF cs] have "set cs \<subseteq> reach h r" by simp
  then have "set (concepts d) \<subseteq> reach (store d) r" unfolding rc by (simp add: d)
  moreover have "maxAGlobalDensity d = maxAGlobalDensity d0" by (simp add: d)
  moreover have "\<forall>x. covered (store d x) = covered (h x)" by (simp add: d f)
  ultimately show ?thesis using b by blast
qed

lemma running_max_Finite:
  assumes "\<forall>c\<in>set cs. \<exists>q. f c = Finite q \<and> 0 \<le> q" "0 \<le> M0"
  shows "\<exists>M. foldl (\<lambda>m c. if jgt (f c) m then f c else m) (Finite M0) cs = Finite M \<and> 0 \<le> M"
  using assms
proof (induction cs arbitrary: M0)
  case Nil
  then show ?case by simp
next
  case (Cons c cs)
  from Cons.prems obtain q where q: "f c = Finite q" "0 \<le> q" by auto
  have "(if jgt (f c) (Finite M0) then f c else Finite M0) = Finite (if M0 < q then q else M0)"
    by (simp add: q jgt_def)
  moreover have "0 \<le> (if M0 < q then q else M0)" using q Cons.prems by simp
  moreover from Cons.prems have "\<forall>c\<in>set cs. \<exists>q. f c = Finite q \<and> 0 \<le> q" by simp
  ultimately show ?case using Cons.IH [of "if M0 < q then q else M0"] by simp
qed

lemma calcDensity_bound:
  assumes run: "calcDensityOfConcepts m d = Some d1"
    and M0: "maxAGlobalDensity d = Finite M0" "0 \<le> M0"
    and lev: "\<forall>c\<in>set (concepts d). \<exists>l. level (store d c) = Finite l"
  shows "(\<forall>c\<in>set (concepts d). nanOrAtMost (14 / 25) (density (store d1 c)))
       \<and> (\<forall>x. level (store d1 x) = level (store d x)
              \<and> basicLevel (store d1 x) = basicLevel (store d x)
              \<and> ident (store d1 x) = ident (store d x)
              \<and> children (store d1 x) = children (store d x)
              \<and> parent (store d1 x) = parent (store d x))
       \<and> concepts d1 = concepts d \<and> paths d1 = paths d
       \<and> (\<exists>M. maxAGlobalDensity d1 = Finite M \<and> 0 \<le> M)"
proof -
  let ?cs = "concepts d"
  let ?f = "\<lambda>c. aGlobalDensityOf (store d c)"
  let ?h0 = "\<lambda>c. if c \<in> set ?cs then (store d c)\<lparr>aGlobalDensity := ?f c\<rparr> else store d c"
  let ?M = "foldl (\<lambda>m c. if jgt (?f c) m then ?f c else m) (Finite M0) ?cs"
  have fl: "aGlobalDensityLoop ?cs (store d, maxAGlobalDensity d) = (?h0, ?M)"
    by (simp add: aGlobalDensityLoop_char M0)
  have "\<forall>c\<in>set ?cs. \<exists>q. ?f c = Finite q \<and> 0 \<le> q"
    using aGlobalDensityOf_nonneg by blast
  from running_max_Finite [OF this M0(2)] obtain M where M: "?M = Finite M" "0 \<le> M" by blast
  from run have dl: "densityLoop m (Finite M) ?cs ?h0 = Some (store d1)"
    and d1: "d1 = d\<lparr>store := store d1, maxAGlobalDensity := Finite M\<rparr>"
    by (auto simp: calcDensityOfConcepts_def Let_def fl M split: option.splits)
  have agd: "\<forall>c\<in>set ?cs. \<exists>a. aGlobalDensity (?h0 c) = Finite a \<and> 0 \<le> a \<and> a \<le> M"
  proof
    fix c assume c: "c \<in> set ?cs"
    from aGlobalDensityOf_nonneg obtain q where q: "?f c = Finite q" "0 \<le> q" by blast
    from running_max_upper [of ?cs ?f "Finite M0"] c have "\<not> jgt (?f c) ?M" by blast
    then have "\<not> jgt (Finite q) (Finite M)" unfolding M q .
    then have "q \<le> M" by (simp add: jgt_def)
    with q c show "\<exists>a. aGlobalDensity (?h0 c) = Finite a \<and> 0 \<le> a \<and> a \<le> M" by simp
  qed
  have lev0: "\<forall>c\<in>set ?cs. \<exists>l. level (?h0 c) = Finite l" using lev by simp
  note b = densityLoop_bound [OF dl agd lev0]
  have c1: "concepts d1 = concepts d" "paths d1 = paths d" "maxAGlobalDensity d1 = Finite M"
    by (subst d1, simp)+
  show ?thesis
  proof (intro conjI allI)
    show "\<forall>c\<in>set (concepts d). nanOrAtMost (14 / 25) (density (store d1 c))"
      using b by blast
    show "concepts d1 = concepts d" "paths d1 = paths d" by (rule c1)+
    show "\<exists>M. maxAGlobalDensity d1 = Finite M \<and> 0 \<le> M" using c1(3) M(2) by blast
  next
    fix x
    from b have "level (store d1 x) = level (?h0 x)" "basicLevel (store d1 x) = basicLevel (?h0 x)"
      "ident (store d1 x) = ident (?h0 x)" "children (store d1 x) = children (?h0 x)"
      "parent (store d1 x) = parent (?h0 x)"
      by blast+
    then show "level (store d1 x) = level (store d x)"
      "basicLevel (store d1 x) = basicLevel (store d x)"
      "ident (store d1 x) = ident (store d x)"
      "children (store d1 x) = children (store d x)"
      "parent (store d1 x) = parent (store d x)"
      by simp_all
  qed
qed

lemma calcDensity_returns:
  assumes "builtTree n (store d) r" "set (concepts d) \<subseteq> reach (store d) r" "n < m"
  shows "\<exists>d1. calcDensityOfConcepts m d = Some d1"
proof -
  let ?fl = "aGlobalDensityLoop (concepts d) (store d, maxAGlobalDensity d)"
  have f: "fst ?fl = (\<lambda>c. if c \<in> set (concepts d)
      then (store d c)\<lparr>aGlobalDensity := aGlobalDensityOf (store d c)\<rparr> else store d c)"
    by (simp add: aGlobalDensityLoop_char)
  have r: "childRel (fst ?fl) = childRel (store d)"
    by (rule childRel_cong) (simp add: f)
  have u: "upRel (fst ?fl) = upRel (store d)"
    by (rule upRel_cong) (simp_all add: f)
  have "\<forall>c\<in>set (concepts d).
      (\<forall>k x. (c, x) \<in> (childRel (store d)) ^^ k \<longrightarrow> k < m)
      \<and> (\<forall>k x. (c, x) \<in> (upRel (store d)) ^^ k \<longrightarrow> k < m)"
  proof (intro ballI conjI allI impI)
    fix c k x assume c: "c \<in> set (concepts d)" and "(c, x) \<in> (childRel (store d)) ^^ k"
    with built_chains [OF assms(1), of c] assms(2) have "k < n" by blast
    with assms(3) show "k < m" by simp
  next
    fix c k x assume "(c, x) \<in> (upRel (store d)) ^^ k"
    with built_up_chains [OF assms(1), of c] have "k < Suc n" by blast
    with assms(3) show "k < m" by simp
  qed
  from densityLoop_returns [OF r u this] obtain h' where
    "densityLoop m (snd ?fl) (concepts d) (fst ?fl) = Some h'" by blast
  then show ?thesis by (simp add: calcDensityOfConcepts_def Let_def)
qed
section \<open>Which swaps the selection loops accept\<close>

text \<open>
  The loop of \<open>extractKeyConcepts\<close> does what claim C2 says. Take the loop at any
  iteration \<open>i\<close>: \<open>s\<close> is the state before the iteration and \<open>cand\<close> the candidate set
  built for the remaining concept \<open>rs ! i\<close>. The loop variables of \<open>s\<close> are the two
  averages of the working set. When the candidate has a strictly greater average overall
  score and an average contribution that is not smaller, it becomes the working set, and
  the working set's average overall score has strictly increased while its average
  contribution has not decreased. In every other case the working set and both loop
  variables stay as they were.
\<close>

theorem swap_accepted_only_when_improving:
  assumes "i < length rs"
  shows "let s = foldl swapStep (initialSelection h best) (take i rs);
             s' = foldl swapStep (initialSelection h best) (take (Suc i) rs);
             cand = newConceptSetOf s (rs ! i)
         in avgContribution s = setAvgContribution (sel_store s) (bestConceptSet s)
          \<and> avgOverallScore s = setAvgOverallScore (sel_store s) (bestConceptSet s)
          \<and> (if jgt (setAvgOverallScore (sel_store s) cand)
                     (setAvgOverallScore (sel_store s) (bestConceptSet s))
                \<and> jge (setAvgContribution (sel_store s) cand)
                        (setAvgContribution (sel_store s) (bestConceptSet s))
              then bestConceptSet s' = cand
                \<and> jgt (setAvgOverallScore (sel_store s') (bestConceptSet s'))
                        (setAvgOverallScore (sel_store s) (bestConceptSet s))
                \<and> jge (setAvgContribution (sel_store s') (bestConceptSet s'))
                        (setAvgContribution (sel_store s) (bestConceptSet s))
              else bestConceptSet s' = bestConceptSet s
                \<and> avgOverallScore s' = avgOverallScore s
                \<and> avgContribution s' = avgContribution s)"
proof -
  define s where "s = foldl swapStep (initialSelection h best) (take i rs)"
  define s' where "s' = foldl swapStep (initialSelection h best) (take (Suc i) rs)"
  define cand where "cand = newConceptSetOf s (rs ! i)"
  have step: "s' = swapStep s (rs ! i)"
    using assms by (simp add: s_def s'_def take_Suc_conv_app_nth)
  have cons: "consistent s"
    unfolding s_def by (rule foldl_swapStep_consistent) (rule initialSelection_consistent)
  then have avgC: "avgContribution s = setAvgContribution (sel_store s) (bestConceptSet s)"
    and avgO: "avgOverallScore s = setAvgOverallScore (sel_store s) (bestConceptSet s)"
    by (simp_all add: consistent_def)
  have branches:
    "if jgt (setAvgOverallScore (sel_store s) cand)
            (setAvgOverallScore (sel_store s) (bestConceptSet s))
        \<and> jge (setAvgContribution (sel_store s) cand)
               (setAvgContribution (sel_store s) (bestConceptSet s))
     then bestConceptSet s' = cand
        \<and> jgt (setAvgOverallScore (sel_store s') (bestConceptSet s'))
               (setAvgOverallScore (sel_store s) (bestConceptSet s))
        \<and> jge (setAvgContribution (sel_store s') (bestConceptSet s'))
               (setAvgContribution (sel_store s) (bestConceptSet s))
     else bestConceptSet s' = bestConceptSet s
        \<and> avgOverallScore s' = avgOverallScore s
        \<and> avgContribution s' = avgContribution s"
    unfolding step cand_def
    by (simp add: swapStep_char [of s "rs ! i"] avgC [symmetric] avgO [symmetric])
  show ?thesis
    using avgC avgO branches
    unfolding Let_def s_def [symmetric] s'_def [symmetric] cand_def [symmetric]
    by simp
qed

theorem swap_accepted_only_when_improving_witness:
  "(0::nat) < length [3::nat]
   \<and> bestConceptSet (foldl swapStep (initialSelection swapHeap [0, 1]) (take 0 [3])) = [0, 1]
   \<and> bestConceptSet (foldl swapStep (initialSelection swapHeap [0, 1]) (take (Suc 0) [3])) = [0, 3]
   \<and> jgt (setAvgOverallScore
             (sel_store (foldl swapStep (initialSelection swapHeap [0, 1]) (take (Suc 0) [3])))
             (bestConceptSet (foldl swapStep (initialSelection swapHeap [0, 1]) (take (Suc 0) [3]))))
           (Finite (3 / 5))
   \<and> jge (setAvgContribution
             (sel_store (foldl swapStep (initialSelection swapHeap [0, 1]) (take (Suc 0) [3])))
             (bestConceptSet (foldl swapStep (initialSelection swapHeap [0, 1]) (take (Suc 0) [3]))))
           (Finite (1 / 2))"
proof -
  let ?s = "foldl swapStep (initialSelection swapHeap [0, 1]) (take 0 [3])"
  have len: "(0::nat) < length [3::nat]" by simp
  have cand: "newConceptSetOf ?s ([3] ! 0) = [0, 3]" by code_simp
  have best: "bestConceptSet ?s = [0, 1]" by code_simp
  have o1: "setAvgOverallScore (sel_store ?s) [0, 3] = Finite (3 / 4)" by code_simp
  have o0: "setAvgOverallScore (sel_store ?s) [0, 1] = Finite (3 / 5)" by code_simp
  have c1: "setAvgContribution (sel_store ?s) [0, 3] = Finite (5 / 2)" by code_simp
  have c0: "setAvgContribution (sel_store ?s) [0, 1] = Finite (1 / 2)" by code_simp
  have cond: "jgt (Finite (3 / 4)) (Finite (3 / 5)) \<and> jge (Finite (5 / 2)) (Finite (1 / 2))"
    by (simp add: jgt_def jge_def)
  note t = swap_accepted_only_when_improving [OF len, of swapHeap "[0, 1]",
      unfolded Let_def cand best o1 o0 c1 c0]
  note x = t [THEN conjunct2, THEN conjunct2, unfolded if_P [OF cond]]
  from len best x show ?thesis by blast
qed


section \<open>Path enumeration terminates\<close>

text \<open>
  Claim C10. On every heap in which finitely many concepts are reachable from \<open>start\<close>
  through the \<open>children\<close> arrays, whatever their parent and cycle structure,
  \<open>calcAllPaths\<close> returns: a recursion depth larger than the number of reachable
  concepts that are not yet on the path is enough. When the path it starts from has no
  repeated concept, every path it returns consists of pairwise distinct concepts.
\<close>

theorem calcAllPaths_terminates:
  assumes "finite (reach h start)" and "card (reach h start - set path) < n"
  shows "\<exists>ps. calcAllPaths n h start path = Some ps
           \<and> (distinct path \<longrightarrow> (\<forall>p\<in>set ps. distinct p))"
  using assms by (rule calcAllPaths_ok)

theorem calcAllPaths_terminates_witness:
  "finite (reach cyclicHeap 0)
   \<and> card (reach cyclicHeap 0 - set []) < 6
   \<and> calcAllPaths 6 cyclicHeap 0 [] = Some [[0, 1, 3, 4], [0, 2, 3, 4]]
   \<and> distinct [0, 1, 3, 4 :: ref] \<and> distinct [0, 2, 3, 4 :: ref]"
proof -
  have fin: "finite (reach cyclicHeap 0)"
    using cyclicHeap_reach by (rule finite_subset) simp
  have "card (reach cyclicHeap 0) \<le> card {0, 1, 2, 3, 4 :: nat}"
    using cyclicHeap_reach by (intro card_mono) simp_all
  then have crd: "card (reach cyclicHeap 0 - set []) < 6" by simp
  have run: "calcAllPaths 6 cyclicHeap 0 [] = Some [[0, 1, 3, 4], [0, 2, 3, 4]]"
    by code_simp
  from calcAllPaths_terminates [OF fin crd] run
  have "\<forall>p\<in>set [[0, 1, 3, 4], [0, 2, 3, 4 :: ref]]. distinct p" by simp
  then have "distinct [0, 1, 3, 4 :: ref] \<and> distinct [0, 2, 3, 4 :: ref]" by simp
  with fin crd run show ?thesis by blast
qed

section \<open>Zero denominators\<close>






section \<open>The worst member of the working set\<close>




section \<open>The size of the extraction result\<close>






section \<open>Duplicate declarations are merged\<close>




section \<open>The root of the concept tree\<close>

text \<open>
  When several concepts have no parent, \<open>getRootOfConceptsTree\<close> creates a concept of
  \<open>owl:Thing\<close> above them: for two unrelated concepts the root is the new concept, it has
  no parent, and it is the one parent of both.
\<close>

lemma two_roots_get_thing:
  "(case getInstanceConceptsTree 3 twoRoots of
      Inr (h, r) \<Rightarrow> r = 2 \<and> ident (h r) = THING_URI \<and> parent (h r) = []
        \<and> children (h r) = [0, 1] \<and> parent (h 0) = [r] \<and> parent (h 1) = [r]
    | Inl e \<Rightarrow> False)"
  by code_simp

text \<open>
  Claim C5, at the inputs where the code departs from it. The claim has every input
  give a tree with one root, created when needed, and the comment of
  \<open>getRootOfConceptsTree\<close> says that a root \<open>owl:Thing\<close> is created if the root does not
  exist. The code creates it only when more than one concept has no parent. When none
  has (no binding at all, or two concepts that are each other's parent) the root is
  undefined and \<open>getInstanceConceptsTree\<close> throws, whatever the recursion depth allowed;
  so does \<open>getClassTree\<close> when no class other than a primitive type is without a parent
  (no binding at all, or a class declared below a declared \<open>owl:Thing\<close>).
\<close>

theorem no_parentless_concept_no_tree:
  "getInstanceConceptsTree n [] = Inl TypeError
   \<and> getInstanceConceptsTree n mutualParents = Inl TypeError
   \<and> getClassTree n [] = Inl TypeError
   \<and> getClassTree n belowThing = Inl TypeError"
proof -
  have "snd (getRootOfConceptsTree
               (foldl instanceTreeStep
                  \<lparr>nodes = emptyHeap, nextRef = 0, createdConcepts = []\<rparr> [])) = None"
    by code_simp
  then have a: "getInstanceConceptsTree n [] = Inl TypeError"
    unfolding getInstanceConceptsTree_def Let_def by simp
  have "snd (getRootOfConceptsTree
               (foldl instanceTreeStep
                  \<lparr>nodes = emptyHeap, nextRef = 0, createdConcepts = []\<rparr> mutualParents)) = None"
    by code_simp
  then have b: "getInstanceConceptsTree n mutualParents = Inl TypeError"
    unfolding getInstanceConceptsTree_def Let_def by simp
  have "(case classTreeOf [] of Inr (tr, classes, rootClass) \<Rightarrow> rootClass = None
         | Inl e \<Rightarrow> False)"
    by code_simp
  then have c: "getClassTree n [] = Inl TypeError"
    unfolding getClassTree_def by (auto split: sum.splits)
  have "(case classTreeOf belowThing of Inr (tr, classes, rootClass) \<Rightarrow> rootClass = None
         | Inl e \<Rightarrow> False)"
    by code_simp
  then have d: "getClassTree n belowThing = Inl TypeError"
    unfolding getClassTree_def by (auto split: sum.splits)
  from a b c d show ?thesis by (intro conjI)
qed

section \<open>The neighbourhood of the local density\<close>




section \<open>The covered relation is symmetric\<close>

text \<open>
  Claim C4. Let \<open>getInstanceConceptsTree\<close> or \<open>getClassTree\<close> return a concept tree. For
  all concepts \<open>A\<close> and \<open>B\<close> of the tree (the concepts reachable from the root through
  the \<open>children\<close> arrays), \<open>A\<close> is in \<open>B.covered\<close> exactly when \<open>A\<close> is \<open>B\<close>, or above
  \<open>B\<close>, or below \<open>B\<close>; so \<open>A\<close> is in \<open>B.covered\<close> if and only if \<open>B\<close> is in \<open>A.covered\<close>.
\<close>

theorem covered_is_symmetric:
  "getInstanceConceptsTree n bs = Inr (h', r) \<or> getClassTree n cbs = Inr (res, h', r) \<longrightarrow>
     (\<forall>A\<in>reach h' r. \<forall>B\<in>reach h' r.
        ((A \<in> set (covered (h' B)))
           = (A = B \<or> (A, B) \<in> (childRel h')\<^sup>+ \<or> (B, A) \<in> (childRel h')\<^sup>+))
        \<and> ((A \<in> set (covered (h' B))) = (B \<in> set (covered (h' A)))))"
proof (intro impI ballI)
  fix A B
  assume built: "getInstanceConceptsTree n bs = Inr (h', r)
        \<or> getClassTree n cbs = Inr (res, h', r)"
    and A: "A \<in> reach h' r" and B: "B \<in> reach h' r"
  from built obtain h0 where p: "pristine h0" and run: "updateConceptTree n h0 r = Some h'"
    using getInstanceConceptsTree_built getClassTree_built by blast
  from run obtain h1 where "addSubConcept n h0 r (Finite 1) = Some h1"
    "addSuperConcepts n h1 r = Some h'"
    by (rule updateConceptTree_parts)
  then have "sameLinks h0 h1" "sameLinks h1 h'"
    using addSubConcept_frame(1) addSuperConcepts_frame(1) by blast+
  then have s: "sameLinks h0 h'" by (rule sameLinks_trans)
  note r = sameLinks_reach [OF s] and c = sameLinks_childRel [OF s]
  from p have l: "linked h0" and u: "unmarked h0" by (simp_all add: pristine_def)
  from A B have A0: "A \<in> reach h0 r" and B0: "B \<in> reach h0 r" by (simp_all add: r)
  note ab = covered_characterised [OF run l u A0 B0, folded c]
  note ba = covered_characterised [OF run l u B0 A0, folded c]
  from ab ba
  show "((A \<in> set (covered (h' B)))
           = (A = B \<or> (A, B) \<in> (childRel h')\<^sup>+ \<or> (B, A) \<in> (childRel h')\<^sup>+))
        \<and> ((A \<in> set (covered (h' B))) = (B \<in> set (covered (h' A))))"
    by blast
qed

theorem covered_is_symmetric_witness:
  "getInstanceConceptsTree 5 shortcut
     = Inr (fst (projr (getInstanceConceptsTree 5 shortcut)),
            snd (projr (getInstanceConceptsTree 5 shortcut)))
   \<and> snd (projr (getInstanceConceptsTree 5 shortcut)) = 1
   \<and> 2 \<in> reach (fst (projr (getInstanceConceptsTree 5 shortcut))) 1
   \<and> 3 \<in> reach (fst (projr (getInstanceConceptsTree 5 shortcut))) 1
   \<and> 2 \<in> set (covered (fst (projr (getInstanceConceptsTree 5 shortcut)) 3))
   \<and> 3 \<in> set (covered (fst (projr (getInstanceConceptsTree 5 shortcut)) 2))"
proof -
  let ?h' = "fst (projr (getInstanceConceptsTree 5 shortcut))"
  have ev: "(case getInstanceConceptsTree 5 shortcut of
               Inr (h, r) \<Rightarrow> r = 1 \<and> children (h 1) = [0, 2] \<and> children (h 0) = [3]
                 \<and> covered (h 3) = [0, 1, 2, 3]
             | Inl e \<Rightarrow> False)"
    by code_simp
  then have nl: "\<not> isl (getInstanceConceptsTree 5 shortcut)"
    and root: "snd (projr (getInstanceConceptsTree 5 shortcut)) = 1"
    and kids: "children (?h' 1) = [0, 2]" "children (?h' 0) = [3]"
    and cov: "covered (?h' 3) = [0, 1, 2, 3]"
    by (auto split: sum.splits)
  from nl have run: "getInstanceConceptsTree 5 shortcut
     = Inr (?h', snd (projr (getInstanceConceptsTree 5 shortcut)))"
    by (metis prod.collapse sum.collapse(2))
  from kids have e: "(1, 0) \<in> childRel ?h'" "(1, 2) \<in> childRel ?h'" "(0, 3) \<in> childRel ?h'"
    by (simp_all add: childRel_def)
  from e(2) have r2: "2 \<in> reach ?h' 1" unfolding reach_def by blast
  from e(1,3) have r3: "3 \<in> reach ?h' 1" unfolding reach_def
    by (meson Image_singleton_iff r_into_rtrancl rtrancl_trans)
  from cov have c: "2 \<in> set (covered (?h' 3))" by simp
  note t = covered_is_symmetric [of 5 shortcut ?h'
      "snd (projr (getInstanceConceptsTree 5 shortcut))" undefined undefined]
  from t [THEN mp, OF disjI1, OF run] r2 r3
  have "(2 \<in> set (covered (?h' 3))) = (3 \<in> set (covered (?h' 2)))"
    unfolding root by blast
  with c have c': "3 \<in> set (covered (?h' 2))" by blast
  from run root r2 r3 c c' show ?thesis by (intro conjI)
qed
section \<open>Properties of name simplicity\<close>






end
